theory Spec2Isabelle
  imports Main "HOL-Library.Word" "HOL-Library.Sublist"
begin

unbundle bit_operations_syntax

section \<open>Library functions used by winimpsym.go\<close>

subsection \<open>Package strings\<close>

definition HasPrefix :: "string \<Rightarrow> string \<Rightarrow> bool" where
  "HasPrefix s p = (take (length p) s = p)"

definition HasSuffix :: "string \<Rightarrow> string \<Rightarrow> bool" where
  "HasSuffix s p = (length p \<le> length s \<and> drop (length s - length p) s = p)"

text \<open>\<open>strings.Split(s, sep)\<close> for a separator of one byte (the source only splits at
  a comma and at a newline): the pieces between the separators, so one piece more than
  there are separators.\<close>

fun Split :: "string \<Rightarrow> char \<Rightarrow> string list" where
  "Split [] sep = [[]]"
| "Split (c # cs) sep =
     (case Split cs sep of
        [] \<Rightarrow> [[c]]
      | piece # pieces \<Rightarrow> if c = sep then [] # piece # pieces else (c # piece) # pieces)"

subsection \<open>Package bufio: a Scanner with the default line splitter\<close>

text \<open>The tokens of \<open>bufio.NewScanner(strings.NewReader(content))\<close>: the lines of the
  content without their newline and without one trailing carriage return; a final line with
  no newline is returned when it is not empty; scanning stops (as at the end of the input)
  at a line that does not fit the scanner's buffer of 64 KiB.\<close>

definition dropCR :: "string \<Rightarrow> string" where
  "dropCR l = (if l \<noteq> [] \<and> last l = CHR 0x0D then butlast l else l)"

definition MaxScanTokenSize :: int where
  "MaxScanTokenSize = 64 * 1024"

definition ScanLines :: "string \<Rightarrow> string list" where
  "ScanLines content =
     (let ls = Split content (CHR 0x0A);
          ls = (if last ls = [] then butlast ls else ls)
      in map dropCR (takeWhile (\<lambda>l. int (length l) < MaxScanTokenSize) ls))"

subsection \<open>Package regexp\<close>

text \<open>The fragment of the regular expressions that the four patterns of the source use.
  \<open>Space\<close> is \<open>\s\<close>, \<open>NonSpace\<close> is \<open>\S\<close>, \<open>Digit\<close> is \<open>\d\<close> and \<open>[0-9]\<close>,
  \<open>AnyChar\<close> is \<open>.\<close>, \<open>Bot\<close> is \<open>^\<close> and \<open>Eot\<close> is \<open>$\<close> (no flag is set, so they match
  at the two ends of the text only), \<open>Grp n r\<close> is the n-th capturing group.\<close>

datatype rx =
    Lit string
  | Space
  | NonSpace
  | Digit
  | AnyChar
  | Bot
  | Eot
  | Seq rx rx
  | Opt rx
  | Star rx
  | Grp nat rx

definition Plus :: "rx \<Rightarrow> rx" where
  "Plus r = Seq r (Star r)"

fun seqs :: "rx list \<Rightarrow> rx" where
  "seqs [] = Lit []"
| "seqs [r] = r"
| "seqs (r # rs) = Seq r (seqs rs)"

definition isSpace :: "char \<Rightarrow> bool" where
  "isSpace c = (c = CHR '' '' \<or> c = CHR 0x09 \<or> c = CHR 0x0A \<or> c = CHR 0x0C \<or> c = CHR 0x0D)"

definition isDigit :: "char \<Rightarrow> bool" where
  "isDigit c = (c \<in> set ''0123456789'')"

type_synonym caps = "string list"
type_synonym cont = "string \<Rightarrow> caps \<Rightarrow> caps option"

definition one_char :: "(char \<Rightarrow> bool) \<Rightarrow> cont \<Rightarrow> cont" where
  "one_char p k s c = (case s of [] \<Rightarrow> None | x # xs \<Rightarrow> if p x then k xs c else None)"

text \<open>Greedy iteration: one more round of the body is tried first, the continuation after
  it. A round that consumes nothing is cut, so the length of the text bounds the rounds.\<close>

primrec star_iter :: "(cont \<Rightarrow> cont) \<Rightarrow> cont \<Rightarrow> nat \<Rightarrow> cont" where
  "star_iter m k 0 = k"
| "star_iter m k (Suc f) =
     (\<lambda>s c. case m (\<lambda>s' c'. if length s' < length s then star_iter m k f s' c' else None) s c of
               Some r \<Rightarrow> Some r
             | None \<Rightarrow> k s c)"

text \<open>A backtracking matcher in continuation-passing style; the first success in the order
  of the alternatives is the leftmost-first match of package regexp. The number \<open>n\<close> is the
  length of the whole text.\<close>

fun rmatch :: "rx \<Rightarrow> nat \<Rightarrow> cont \<Rightarrow> cont" where
  "rmatch (Lit l) n k s c = (if HasPrefix s l then k (drop (length l) s) c else None)"
| "rmatch Space n k s c = one_char isSpace k s c"
| "rmatch NonSpace n k s c = one_char (\<lambda>x. \<not> isSpace x) k s c"
| "rmatch Digit n k s c = one_char isDigit k s c"
| "rmatch AnyChar n k s c = one_char (\<lambda>x. x \<noteq> CHR 0x0A) k s c"
| "rmatch Bot n k s c = (if length s = n then k s c else None)"
| "rmatch Eot n k s c = (if s = [] then k s c else None)"
| "rmatch (Seq a b) n k s c = rmatch a n (\<lambda>s' c'. rmatch b n k s' c') s c"
| "rmatch (Opt a) n k s c =
     (case rmatch a n k s c of Some r \<Rightarrow> Some r | None \<Rightarrow> k s c)"
| "rmatch (Star a) n k s c = star_iter (\<lambda>k'. rmatch a n k') k (length s) s c"
| "rmatch (Grp i a) n k s c =
     rmatch a n (\<lambda>s' c'. k s' (c'[i := take (length s - length s') s])) s c"

text \<open>The match is searched from the leftmost start position on.\<close>

fun search :: "rx \<Rightarrow> nat \<Rightarrow> nat \<Rightarrow> string \<Rightarrow> caps option" where
  "search r ngroups n s =
     (case rmatch r n (\<lambda>s' c'. Some (c'[0 := take (length s - length s') s])) s
             (replicate (Suc ngroups) []) of
        Some c \<Rightarrow> Some c
      | None \<Rightarrow> (case s of [] \<Rightarrow> None | x # xs \<Rightarrow> search r ngroups n xs))"

text \<open>\<open>re.FindStringSubmatch(s)\<close>: the empty slice when nothing matches, else the matched
  text followed by the text of each group.\<close>

definition FindStringSubmatch :: "rx \<times> nat \<Rightarrow> string \<Rightarrow> string list" where
  "FindStringSubmatch re s =
     (case search (fst re) (snd re) (length s) s of None \<Rightarrow> [] | Some c \<Rightarrow> c)"

subsection \<open>Package fmt: Sscanf with one integer verb\<close>

definition digitVal :: "char \<Rightarrow> nat" where
  "digitVal c =
     (if c \<in> set ''0123456789'' then of_char c - 48
      else if c \<in> set ''abcdef'' then of_char c - 87
      else of_char c - 55)"

text \<open>The runes that package fmt takes for space, the newline apart, each as the bytes of
  its UTF-8 encoding: U+0009, U+000B to U+000D, U+0020, U+0085, U+00A0, U+1680, U+2000 to
  U+200A, U+2028, U+2029, U+202F, U+205F and U+3000.\<close>

definition fmt_space :: "string list" where
  "fmt_space =
     [[CHR 0x09], [CHR 0x0B], [CHR 0x0C], [CHR 0x0D], [CHR 0x20],
      [CHR 0xC2, CHR 0x85], [CHR 0xC2, CHR 0xA0], [CHR 0xE1, CHR 0x9A, CHR 0x80],
      [CHR 0xE2, CHR 0x80, CHR 0x80], [CHR 0xE2, CHR 0x80, CHR 0x81],
      [CHR 0xE2, CHR 0x80, CHR 0x82], [CHR 0xE2, CHR 0x80, CHR 0x83],
      [CHR 0xE2, CHR 0x80, CHR 0x84], [CHR 0xE2, CHR 0x80, CHR 0x85],
      [CHR 0xE2, CHR 0x80, CHR 0x86], [CHR 0xE2, CHR 0x80, CHR 0x87],
      [CHR 0xE2, CHR 0x80, CHR 0x88], [CHR 0xE2, CHR 0x80, CHR 0x89],
      [CHR 0xE2, CHR 0x80, CHR 0x8A], [CHR 0xE2, CHR 0x80, CHR 0xA8],
      [CHR 0xE2, CHR 0x80, CHR 0xA9], [CHR 0xE2, CHR 0x80, CHR 0xAF],
      [CHR 0xE2, CHR 0x81, CHR 0x9F], [CHR 0xE3, CHR 0x80, CHR 0x80]]"

text \<open>\<open>SkipSpace\<close> in a scan started by \<open>Sscanf\<close>: the space at the head of the input is
  skipped, rune by rune; a newline met there is an error (\<open>None\<close>).\<close>

function SkipSpace :: "string \<Rightarrow> string option" where
  "SkipSpace s =
     (if HasPrefix s [CHR 0x0A] then None
      else (case find (HasPrefix s) fmt_space of
              None \<Rightarrow> Some s
            | Some e \<Rightarrow> SkipSpace (drop (length e) s)))"
  by pat_completeness auto
termination
proof (relation "measure length")
  fix s e
  assume "find (HasPrefix s) fmt_space = Some e"
  then have "e \<in> set fmt_space" and p: "HasPrefix s e"
    by (auto simp: find_Some_iff)
  then have "e \<noteq> []" by (auto simp: fmt_space_def)
  with p have "s \<noteq> []" by (auto simp: HasPrefix_def)
  with \<open>e \<noteq> []\<close> show "(drop (length e) s, s) \<in> measure length" by simp
qed simp

declare SkipSpace.simps [simp del]

text \<open>The integer scan of package fmt for the verbs \<open>%d\<close> and \<open>%x\<close> into an \<open>int\<close> of 64
  bits: the leading space is skipped, then come an optional sign and the longest run of
  digits of the base, which must not be empty; the sign and the digits are handed to
  \<open>strconv.ParseInt(tok, base, 64)\<close>, which refuses a value that does not fit 64 bits. Input
  left over after the number is no error.\<close>

definition scanInt :: "nat \<Rightarrow> string \<Rightarrow> string \<Rightarrow> int option" where
  "scanInt base digits s =
     (case SkipSpace s of
        None \<Rightarrow> None
      | Some s0 \<Rightarrow>
          (let neg = (s0 \<noteq> [] \<and> hd s0 = CHR ''-'');
               s1 = (if s0 \<noteq> [] \<and> (hd s0 = CHR ''+'' \<or> hd s0 = CHR ''-'') then tl s0 else s0);
               tok = takeWhile (\<lambda>c. c \<in> set digits) s1;
               v = foldl (\<lambda>a c. a * int base + int (digitVal c)) 0 tok;
               i = (if neg then - v else v)
           in if tok = [] then None
              else if - (2 ^ 63) \<le> i \<and> i < 2 ^ 63 then Some i
              else None))"

text \<open>\<open>fmt.Sscanf(s, "%d", &v)\<close> and \<open>fmt.Sscanf(s, "%x", &v)\<close> with the test
  \<open>n != 1 || err != nil\<close>; for \<open>"0x%x"\<close> the input must start with the two bytes \<open>0x\<close>, and
  the verb scans what follows them.\<close>

definition Sscanf_d :: "string \<Rightarrow> int option" where
  "Sscanf_d s = scanInt 10 ''0123456789'' s"

definition Sscanf_x :: "string \<Rightarrow> int option" where
  "Sscanf_x s = scanInt 16 ''0123456789aAbBcCdDeEfF'' s"

definition Sscanf_0x_x :: "string \<Rightarrow> int option" where
  "Sscanf_0x_x s = (if HasPrefix s ''0x'' then Sscanf_x (drop 2 s) else None)"


section \<open>The patterns of winimpsym.go\<close>

text \<open>Each pattern is paired with its number of capturing groups.\<close>

definition symre :: "rx \<times> nat" where
  "symre = (seqs [Bot, Lit ''['', Star Space, Plus Digit, Lit '']'', Lit ''(sec'', Plus Space,
       Grp 1 (Seq (Opt (Lit ''-'')) (Plus Digit)), Lit '')'',
       Lit ''(fl'', Plus Space, Plus NonSpace, Lit '')'',
       Lit ''(ty'', Plus Space, Plus NonSpace, Lit '')'',
       Lit ''(scl'', Plus Space, Plus Digit, Lit '')'', Star Space,
       Lit ''(nx'', Plus Space, Plus NonSpace, Lit '')'', Plus Space,
       Grp 2 (Plus NonSpace), Plus Space, Grp 3 (Plus NonSpace), Star Space, Eot], 3)"

definition relsecre :: "rx \<times> nat" where
  "relsecre = (seqs [Lit ''RELOCATION RECORDS FOR '', Lit ''['', Grp 1 (Plus NonSpace),
       Lit '']'', Lit '':'', Eot], 1)"

definition relre :: "rx \<times> nat" where
  "relre = (seqs [Bot, Grp 1 (Plus NonSpace), Plus Space, Grp 2 (Plus NonSpace), Plus Space,
       Grp 3 (Plus NonSpace), Star Space], 3)"

definition secre :: "rx \<times> nat" where
  "secre = (seqs [Bot, Plus Space, Grp 1 (Plus Digit), Plus Space, Grp 2 (Plus NonSpace),
       Plus Space, Grp 3 (Plus NonSpace), Plus Space, Star AnyChar], 3)"


section \<open>Data model\<close>

definition imppref :: string where
  "imppref = ''__imp_''"

text \<open>The type \<open>defrefmask\<close> is \<open>uint32\<close>; the constant block starts at \<open>iota = 0\<close> with
  \<open>defrefnone\<close>, so \<open>defbase\<close> is \<open>1 << 1\<close>.\<close>

type_synonym defrefmask = "32 word"

definition defrefnone :: defrefmask where "defrefnone = 0"
definition defbase :: defrefmask where "defbase = push_bit 1 1"
definition refbase :: defrefmask where "refbase = push_bit 2 1"
definition defimp :: defrefmask where "defimp = push_bit 3 1"
definition refimp :: defrefmask where "refimp = push_bit 4 1"
definition dsameobj :: defrefmask where "dsameobj = push_bit 5 1"

record definfo =
  def_objidx :: int
  def_secidx :: int
  def_value :: int

record refinfo =
  ref_objidx :: int
  ref_secidx :: int
  offsets :: "int list"
  ref_def :: bool

record secinfo =
  sec_objidx :: int
  sec_name :: string
  sec_size :: int
  sec_idx :: int

text \<open>The maps \<open>secmap\<close>, \<open>defs\<close>, \<open>refs\<close> and \<open>defref\<close> are only read and written at a key.
  The map \<open>all\<close> (here \<open>all_syms\<close>) is also ranged over, and only ever stores \<open>true\<close>: it is
  the list of its keys, each once, in the order of insertion, which stands for the order
  (not specified in Go) in which \<open>range\<close> visits them. The field \<open>scanner\<close> is passed apart
  from the record: a function that scans takes the lines that \<open>Scan\<close> has not returned yet
  and gives back the lines it leaves.\<close>

record state =
  objs :: "string list"
  paths :: "string list"
  sects :: "secinfo list"
  secmap :: "string \<rightharpoonup> int"
  defs :: "string \<rightharpoonup> definfo"
  refs :: "string \<rightharpoonup> refinfo list"
  all_syms :: "string list"
  defref :: "string \<rightharpoonup> defrefmask"
  objidx :: int

text \<open>The package-level variables that \<open>main\<close> sets before the passes.\<close>

record globals =
  allsymsflag :: bool
  watched :: "string \<rightharpoonup> bool"

text \<open>What the program reads from outside: the standard output of the two runs of
  \<open>llvm-objdump-14\<close> on a file (\<open>Inl\<close> the text of the error when the command fails) and
  the content of a file (\<open>None\<close> when it cannot be read).\<close>

record env =
  objdump_t :: "string \<Rightarrow> string + string"
  objdump_htr :: "string \<Rightarrow> string + string"
  ReadFile :: "string \<Rightarrow> string option"

text \<open>An error returned with \<open>fmt.Errorf\<close>, a panic, and the two exits of \<open>main\<close>
  (\<open>fatal\<close> and \<open>usage\<close>), each with its message. A function of the source that returns
  \<open>error\<close> and writes to the state returns the error (\<open>None\<close> is \<open>nil\<close>) and the state as it
  is when the function is left.\<close>

datatype error = Errorf string | Panic string | Fatal string | Usage string

definition newState :: "string list \<Rightarrow> state" where
  "newState os = \<lparr>objs = os, paths = [], sects = [], secmap = Map.empty, defs = Map.empty,
     refs = Map.empty, all_syms = [], defref = Map.empty, objidx = 0\<rparr>"

text \<open>Reading a map of \<open>bool\<close> or of masks at a key it does not hold gives the zero value.\<close>

definition get_bool :: "(string \<rightharpoonup> bool) \<Rightarrow> string \<Rightarrow> bool" where
  "get_bool m k = (case m k of None \<Rightarrow> False | Some b \<Rightarrow> b)"

definition get_mask :: "(string \<rightharpoonup> defrefmask) \<Rightarrow> string \<Rightarrow> defrefmask" where
  "get_mask m k = (case m k of None \<Rightarrow> 0 | Some v \<Rightarrow> v)"

definition insert_key :: "string \<Rightarrow> string list \<Rightarrow> string list" where
  "insert_key k ks = (if k \<in> set ks then ks else ks @ [k])"

section \<open>The passes\<close>

text \<open>A loop \<open>for s.scanner.Scan() { line := s.scanner.Text(); ... }\<close> whose body does not
  scan: the body is a function of the line and of what the loop changes, and says how the
  round ends (\<open>continue\<close> or the end of the body, \<open>break\<close>, or a return with an error or a
  panic). The loop gives back the lines it has not read.\<close>

datatype 'a ctl =
    is_Next: Next (ctl_val: 'a)
  | is_Break: Break (ctl_val: 'a)
  | is_Fail: Fail (ctl_err: error) (ctl_val: 'a)

fun scan_loop ::
  "(string \<Rightarrow> 'a \<Rightarrow> 'a ctl) \<Rightarrow> string list \<Rightarrow> 'a \<Rightarrow> error option \<times> string list \<times> 'a"
where
  "scan_loop body [] a = (None, [], a)"
| "scan_loop body (line # rest) a =
     (case body line a of
        Next a' \<Rightarrow> scan_loop body rest a'
      | Break a' \<Rightarrow> (None, rest, a')
      | Fail e a' \<Rightarrow> (Some e, rest, a'))"

definition isInterestingSym :: "globals \<Rightarrow> state \<Rightarrow> string \<Rightarrow> bool" where
  "isInterestingSym G s sname =
     (HasPrefix sname ''__imp'' \<or> allsymsflag G \<or> get_bool (watched G) sname
      \<or> sname \<in> set (all_syms s))"

subsection \<open>Pass 1\<close>

text \<open>The inner loop of \<open>pass1\<close>, over the rows of a symbol table.\<close>

definition pass1_symtab :: "globals \<Rightarrow> string \<Rightarrow> state \<Rightarrow> state ctl" where
  "pass1_symtab G line s =
     (if HasPrefix line ''AUX '' then Next s
      else if line = [] then Break s
      else let m = FindStringSubmatch symre line in
        if length m = 0 then Fail (Errorf (''bad line '' @ line @ '' in symtab'')) s
        else let sname = m ! 3 in
          if \<not> isInterestingSym G s sname then Next s
          else Next (s\<lparr>all_syms := insert_key sname (all_syms s)\<rparr>))"

lemma scan_loop_length:
  "scan_loop body ls a = (e, rest, a') \<Longrightarrow> length rest \<le> length ls"
  by (induction ls arbitrary: a) (auto split: ctl.splits simp: le_SucI)

text \<open>The outer loop of \<open>pass1\<close>: a line \<open>SYMBOL TABLE:\<close> starts the inner loop, which goes
  on in the same scanner.\<close>

function pass1_scan :: "globals \<Rightarrow> string list \<Rightarrow> state \<Rightarrow> error option \<times> state" where
  "pass1_scan G [] s = (None, s)"
| "pass1_scan G (line # rest) s =
     (if line = ''SYMBOL TABLE:'' then
        (case scan_loop (pass1_symtab G) rest s of
           (Some e, rest', s') \<Rightarrow> (Some e, s')
         | (None, rest', s') \<Rightarrow> pass1_scan G rest' s')
      else pass1_scan G rest s)"
  by pat_completeness auto
termination
  by (relation "measure (\<lambda>(G, ls, s). length ls)")
     (auto dest: scan_loop_length [OF sym] simp: less_Suc_eq_le)

definition pass1 :: "env \<Rightarrow> globals \<Rightarrow> string \<Rightarrow> state \<Rightarrow> error option \<times> state" where
  "pass1 E G infile s =
     (case objdump_t E infile of
        Inl err \<Rightarrow> (Some (Errorf (''running llvm-objdump-14 on '' @ infile @ '': '' @ err)), s)
      | Inr out \<Rightarrow> pass1_scan G (ScanLines out) s)"

subsection \<open>Pass 2\<close>

definition pass2 :: "state \<Rightarrow> state" where
  "pass2 s =
     (let keys = all_syms s in
      s\<lparr>all_syms :=
          fold (\<lambda>k a. if HasPrefix k imppref then insert_key (drop (length imppref) k) a else a)
            keys (all_syms s)\<rparr>)"

subsection \<open>Pass 3: the section table\<close>

definition readSections_row :: "string \<Rightarrow> state \<Rightarrow> state ctl" where
  "readSections_row line s =
     (if line = [] then Break s
      else let m = FindStringSubmatch secre line in
        if length m = 0 then Fail (Errorf (''bad line '' @ line @ '' in sections table'')) s
        else let sidx = m ! 1; sname = m ! 2; ssz = m ! 3 in
          (case Sscanf_x ssz of
             None \<Rightarrow>
               Fail (Errorf (''can't parse sec size in line '' @ line @ '' in sections table'')) s
           | Some ssiz \<Rightarrow>
               (case Sscanf_d sidx of
                  None \<Rightarrow>
                    Fail (Errorf (''can't parse idx in line '' @ line @ '' in sections table'')) s
                | Some sindex \<Rightarrow>
                    Next (s\<lparr>secmap := (secmap s)(sname \<mapsto> int (length (sects s))),
                            sects := sects s @
                              [\<lparr>sec_objidx = objidx s, sec_name = sname,
                                sec_size = ssiz, sec_idx = sindex\<rparr>]\<rparr>))))"

text \<open>The first \<open>Scan\<close> skips the line of column titles.\<close>

definition readSections :: "string list \<Rightarrow> state \<Rightarrow> error option \<times> string list \<times> state" where
  "readSections ls s = scan_loop readSections_row (drop 1 ls) s"

subsection \<open>Pass 3: the symbol table\<close>

definition maskAddDef :: "string \<Rightarrow> state \<Rightarrow> state" where
  "maskAddDef sname s =
     (if HasPrefix sname imppref then
        (let x = drop (length imppref) sname in
         s\<lparr>defref := (defref s)(x \<mapsto> get_mask (defref s) x OR defimp)\<rparr>)
      else s\<lparr>defref := (defref s)(sname \<mapsto> get_mask (defref s) sname OR defbase)\<rparr>)"

definition maskAddRef :: "string \<Rightarrow> state \<Rightarrow> state" where
  "maskAddRef sname s =
     (if HasPrefix sname imppref then
        (let x = drop (length imppref) sname in
         s\<lparr>defref := (defref s)(x \<mapsto> get_mask (defref s) x OR refimp)\<rparr>)
      else s\<lparr>defref := (defref s)(sname \<mapsto> get_mask (defref s) sname OR refbase)\<rparr>)"

text \<open>The body of the loop of \<open>readSymtab\<close> from the test of \<open>isInterestingSym\<close> on, for a
  row decoded to \<open>secidx\<close>, \<open>value\<close> and \<open>sname\<close>. The list \<open>dl\<close> holds the keys of the
  local map \<open>defs\<close> of \<open>readSymtab\<close>, in the order of insertion.\<close>

definition admit_row ::
  "globals \<Rightarrow> int \<Rightarrow> int \<Rightarrow> string \<Rightarrow> string list \<times> state \<Rightarrow> (string list \<times> state) ctl"
where
  "admit_row G secidx val sname a =
     (case a of (dl, s) \<Rightarrow>
      if \<not> isInterestingSym G s sname then Next (dl, s)
      else
        (case (if secidx \<noteq> 0 then
                 (let di = \<lparr>def_objidx = objidx s, def_secidx = secidx, def_value = val\<rparr> in
                  if defs s sname \<noteq> None then Inl (Panic ''resolve collision here'')
                  else Inr (True, insert_key sname dl,
                            maskAddDef sname (s\<lparr>defs := (defs s)(sname \<mapsto> di)\<rparr>)))
               else Inr (False, dl, s)) of
           Inl e \<Rightarrow> Fail e (dl, s)
         | Inr (d, dl1, s1) \<Rightarrow>
             (let ri = \<lparr>ref_objidx = objidx s1, ref_secidx = secidx, offsets = [], ref_def = d\<rparr>;
                  sl = (case refs s1 sname of None \<Rightarrow> [] | Some l \<Rightarrow> l);
                  s2 = s1\<lparr>refs := (refs s1)(sname \<mapsto> sl @ [ri])\<rparr>
              in Next (dl1, if \<not> d then maskAddRef sname s2 else s2))))"

definition readSymtab_row ::
  "globals \<Rightarrow> string \<Rightarrow> string list \<times> state \<Rightarrow> (string list \<times> state) ctl"
where
  "readSymtab_row G line a =
     (if HasPrefix line ''AUX '' then Next a
      else if line = [] then Break a
      else let m = FindStringSubmatch symre line in
        if length m = 0 then Fail (Errorf (''bad line '' @ line @ '' in sections table'')) a
        else
          (case Sscanf_d (m ! 1) of
             None \<Rightarrow> Fail (Errorf (''can't parse sec idx in line '' @ line @ '' in symtab'')) a
           | Some secidx \<Rightarrow>
               (case Sscanf_0x_x (m ! 2) of
                  None \<Rightarrow>
                    Fail (Errorf (''can't parse value in line '' @ line @ '' in symtab'')) a
                | Some val \<Rightarrow> admit_row G secidx val (m ! 3) a)))"

text \<open>After the rows, the loop over the local map \<open>defs\<close> sets \<open>dsameobj\<close>.\<close>

definition sameobj_step :: "string list \<Rightarrow> string \<Rightarrow> state \<Rightarrow> state" where
  "sameobj_step dl k s =
     (if HasPrefix k imppref then
        (let base = drop (length imppref) k in
         if base \<in> set dl then
           s\<lparr>defref := (defref s)(base \<mapsto> get_mask (defref s) base OR dsameobj)\<rparr>
         else s)
      else s)"

definition readSymtab ::
  "globals \<Rightarrow> string list \<Rightarrow> state \<Rightarrow> error option \<times> string list \<times> state"
where
  "readSymtab G ls s =
     (case scan_loop (readSymtab_row G) ls ([], s) of
        (Some e, rest, dl, s1) \<Rightarrow> (Some e, rest, s1)
      | (None, rest, dl, s1) \<Rightarrow> (None, rest, fold (sameobj_step dl) dl s1))"

subsection \<open>Pass 3: the relocations\<close>

text \<open>The walk of the list of references backwards (\<open>for i := range rl\<close> with
  \<open>ri := &rl[rln-i-1]\<close>): \<open>i\<close> is the loop counter, the result is the list with the offset
  appended in place and the flag \<open>found\<close>.\<close>

function walk_refs :: "int \<Rightarrow> int \<Rightarrow> refinfo list \<Rightarrow> nat \<Rightarrow> bool \<Rightarrow> refinfo list \<times> bool" where
  "walk_refs k off rl i found =
     (if i < length rl then
        (let j = length rl - i - 1 in
         if ref_objidx (rl ! j) \<noteq> k then (rl, found)
         else walk_refs k off (rl[j := (rl ! j)\<lparr>offsets := offsets (rl ! j) @ [off]\<rparr>])
                (Suc i) True)
      else (rl, found))"
  by pat_completeness auto
termination
  by (relation "measure (\<lambda>(k, off, rl, i, found). length rl - i)") auto

declare walk_refs.simps [simp del]

definition readRelocations_row :: "globals \<Rightarrow> string \<Rightarrow> state \<Rightarrow> state ctl" where
  "readRelocations_row G line s =
     (if line = [] then Break s
      else let m = FindStringSubmatch relre line in
        if length m = 0 then Fail (Errorf (''bad line '' @ line @ '' in relocs'')) s
        else let soff = m ! 1; sval = m ! 3 in
          if \<not> isInterestingSym G s sval then Next s
          else
            (case Sscanf_x soff of
               None \<Rightarrow> Fail (Errorf (''can't parse offset in line '' @ line @ '' relocs'')) s
             | Some off \<Rightarrow>
                 (case refs s sval of
                    None \<Rightarrow> Fail (Errorf (''can't find refs entry in '' @ line)) s
                  | Some rl \<Rightarrow>
                      (case walk_refs (objidx s) off rl 0 False of
                         (rl', found) \<Rightarrow>
                           (let s1 = s\<lparr>refs := (refs s)(sval \<mapsto> rl')\<rparr> in
                            if \<not> found then
                              Fail (Errorf (''could not find ref info for reloc '' @ line)) s1
                            else Next s1)))))"

text \<open>The header is checked, one \<open>Scan\<close> skips the line of column titles, then the rows.\<close>

definition readRelocations ::
  "globals \<Rightarrow> string \<Rightarrow> string list \<Rightarrow> state \<Rightarrow> error option \<times> string list \<times> state"
where
  "readRelocations G rline ls s =
     (let m = FindStringSubmatch relsecre rline in
      if length m = 0 then (Some (Errorf (''bad relocations line '' @ rline)), ls, s)
      else scan_loop (readRelocations_row G) (drop 1 ls) s)"

subsection \<open>Pass 3: one object\<close>

lemma readSections_length:
  "readSections ls s = (e, rest, s') \<Longrightarrow> length rest \<le> length ls"
  by (auto simp: readSections_def dest!: scan_loop_length)

lemma readSymtab_length:
  "readSymtab G ls s = (e, rest, s') \<Longrightarrow> length rest \<le> length ls"
  by (auto simp: readSymtab_def split: prod.splits option.splits dest!: scan_loop_length)

lemma readRelocations_length:
  "readRelocations G rline ls s = (e, rest, s') \<Longrightarrow> length rest \<le> length ls"
  by (auto simp: readRelocations_def Let_def split: if_splits dest!: scan_loop_length)

text \<open>The body of the loop of \<open>digest\<close>: the three tests are made one after the other on
  the same line, each reader going on in the same scanner.\<close>

definition digest_line ::
  "globals \<Rightarrow> string \<Rightarrow> string list \<Rightarrow> state \<Rightarrow> error option \<times> string list \<times> state"
where
  "digest_line G line ls s =
     (case (if line = ''Sections:'' then readSections ls s else (None, ls, s)) of
        (Some e, ls1, s1) \<Rightarrow> (Some e, ls1, s1)
      | (None, ls1, s1) \<Rightarrow>
          (case (if line = ''SYMBOL TABLE:'' then readSymtab G ls1 s1 else (None, ls1, s1)) of
             (Some e, ls2, s2) \<Rightarrow> (Some e, ls2, s2)
           | (None, ls2, s2) \<Rightarrow>
               (if HasPrefix line ''RELOCATION RECORDS FOR [''
                then readRelocations G line ls2 s2 else (None, ls2, s2))))"

lemma digest_line_length:
  "digest_line G line ls s = (e, rest, s') \<Longrightarrow> length rest \<le> length ls"
  unfolding digest_line_def
  by (auto split: if_splits prod.splits option.splits
           dest!: readSections_length readSymtab_length readRelocations_length)

function digest_loop :: "globals \<Rightarrow> string list \<Rightarrow> state \<Rightarrow> error option \<times> state" where
  "digest_loop G [] s = (None, s)"
| "digest_loop G (line # rest) s =
     (case digest_line G line rest s of
        (Some e, rest', s') \<Rightarrow> (Some e, s')
      | (None, rest', s') \<Rightarrow> digest_loop G rest' s')"
  by pat_completeness auto
termination
  by (relation "measure (\<lambda>(G, ls, s). length ls)")
     (auto dest: digest_line_length [OF sym] simp: less_Suc_eq_le)

definition digest :: "globals \<Rightarrow> string \<Rightarrow> state \<Rightarrow> error option \<times> state" where
  "digest G content s = digest_loop G (ScanLines content) s"

fun pathinfo_lines :: "string list \<Rightarrow> string" where
  "pathinfo_lines [] = []"
| "pathinfo_lines (line # ls) =
     (if HasPrefix line ''pn: '' then drop 4 line else pathinfo_lines ls)"

definition pathinfo :: "env \<Rightarrow> string \<Rightarrow> string" where
  "pathinfo E infile =
     (if \<not> HasSuffix infile ''.o'' then []
      else
        (let txtfile = take (length infile - 1) infile @ ''txt'' in
         case ReadFile E txtfile of
           None \<Rightarrow> []
         | Some content \<Rightarrow> pathinfo_lines (Split content (CHR 0x0A))))"

definition pass3 :: "env \<Rightarrow> globals \<Rightarrow> string \<Rightarrow> state \<Rightarrow> error option \<times> state" where
  "pass3 E G infile s =
     (case objdump_htr E infile of
        Inl err \<Rightarrow> (Some (Errorf (''running llvm-objdump-14 on '' @ infile @ '': '' @ err)), s)
      | Inr out \<Rightarrow>
          (case digest G out s of
             (Some e, s1) \<Rightarrow> (Some e, s1)
           | (None, s1) \<Rightarrow> (None, s1\<lparr>paths := paths s1 @ [pathinfo E infile]\<rparr>)))"

subsection \<open>The driver\<close>

text \<open>\<open>fatal\<close> prints the message of an error and exits; a panic is not an error value and
  leaves \<open>main\<close> as it is.\<close>

fun fatal_reading :: "string \<Rightarrow> error \<Rightarrow> error" where
  "fatal_reading ifile (Errorf msg) = Fatal (''reading '' @ ifile @ '': '' @ msg)"
| "fatal_reading ifile e = e"

text \<open>The two loops \<open>for k, ifile := range infiles\<close> of \<open>main\<close>; \<open>k\<close> is the index of the
  first file of the list.\<close>

fun pass1_files :: "env \<Rightarrow> globals \<Rightarrow> int \<Rightarrow> string list \<Rightarrow> state \<Rightarrow> error option \<times> state" where
  "pass1_files E G k [] s = (None, s)"
| "pass1_files E G k (ifile # rest) s =
     (case pass1 E G ifile (s\<lparr>objidx := k\<rparr>) of
        (Some e, s1) \<Rightarrow> (Some (fatal_reading ifile e), s1)
      | (None, s1) \<Rightarrow> pass1_files E G (k + 1) rest s1)"

fun pass3_files :: "env \<Rightarrow> globals \<Rightarrow> int \<Rightarrow> string list \<Rightarrow> state \<Rightarrow> error option \<times> state" where
  "pass3_files E G k [] s = (None, s)"
| "pass3_files E G k (ifile # rest) s =
     (case pass3 E G ifile (s\<lparr>objidx := k\<rparr>) of
        (Some e, s1) \<Rightarrow> (Some (fatal_reading ifile e), s1)
      | (None, s1) \<Rightarrow> pass3_files E G (k + 1) rest s1)"

definition mkWatched :: "string \<Rightarrow> (string \<rightharpoonup> bool)" where
  "mkWatched watchsymsflag =
     (if watchsymsflag \<noteq> [] then
        fold (\<lambda>w m. m(w \<mapsto> True, imppref @ w \<mapsto> True)) (Split watchsymsflag (CHR '','')) Map.empty
      else Map.empty)"

definition mkGlobals :: "bool \<Rightarrow> string \<Rightarrow> globals" where
  "mkGlobals allsyms watchsymsflag = \<lparr>allsymsflag = allsyms, watched = mkWatched watchsymsflag\<rparr>"

text \<open>The three passes of \<open>main\<close> over the list of input files.\<close>

definition passes :: "env \<Rightarrow> globals \<Rightarrow> string list \<Rightarrow> error option \<times> state" where
  "passes E G infiles =
     (let s = newState infiles in
      case pass1_files E G 0 infiles s of
        (Some e, s1) \<Rightarrow> (Some e, s1)
      | (None, s1) \<Rightarrow> pass3_files E G 0 infiles (pass2 s1))"

text \<open>\<open>main\<close> up to the end of pass 3, for the values of the flags \<open>-i\<close>, \<open>-all\<close> and
  \<open>-watch\<close>; the report printed after pass 3 reads the state and does not change it. With
  no input file \<open>usage\<close> exits before a state exists.\<close>

definition main :: "env \<Rightarrow> string \<Rightarrow> bool \<Rightarrow> string \<Rightarrow> error option \<times> state" where
  "main E inputsflag allsyms watchsymsflag =
     (if inputsflag = [] then (Some (Usage ''supply input files with -i option''), newState [])
      else passes E (mkGlobals allsyms watchsymsflag) (Split inputsflag (CHR '','')))"

section \<open>Notions of the specification\<close>

text \<open>The offsets of the relocation rows of a block that name the symbol \<open>nm\<close>, in the
  order of the rows: a block ends at its first empty line, and a row gives the offset that
  \<open>readRelocations\<close> decodes from it. The claim on the binding of relocations counts these
  rows (its \<open>m\<close>); this definition follows the words of the specification and is what the
  result of \<open>readRelocations\<close> is compared with.\<close>

definition row_offset :: "string \<Rightarrow> string \<Rightarrow> int list" where
  "row_offset nm line =
     (let m = FindStringSubmatch relre line in
      if length m \<noteq> 0 \<and> m ! 3 = nm then
        (case Sscanf_x (m ! 1) of None \<Rightarrow> [] | Some off \<Rightarrow> [off])
      else [])"

fun reloc_offsets :: "string \<Rightarrow> string list \<Rightarrow> int list" where
  "reloc_offsets nm [] = []"
| "reloc_offsets nm (line # ls) =
     (if line = [] then [] else row_offset nm line @ reloc_offsets nm ls)"

text \<open>An entry of a list of references that is kept: the object, the section index and
  the definition flag are the same, and the offsets it had are the first of those it has.
  A list that is only appended to: the entries it had are kept, in their places.\<close>

definition same_entry :: "refinfo \<Rightarrow> refinfo \<Rightarrow> bool" where
  "same_entry r r' \<longleftrightarrow>
     ref_objidx r' = ref_objidx r \<and> ref_secidx r' = ref_secidx r \<and> ref_def r' = ref_def r
     \<and> prefix (offsets r) (offsets r')"

definition ref_extends :: "refinfo list \<Rightarrow> refinfo list \<Rightarrow> bool" where
  "ref_extends rl rl' \<longleftrightarrow>
     length rl \<le> length rl' \<and> list_all2 same_entry rl (take (length rl) rl')"


text \<open>The entries a state holds are kept.\<close>

definition refs_kept :: "state \<Rightarrow> state \<Rightarrow> bool" where
  "refs_kept a b \<longleftrightarrow>
     (\<forall>n rl. refs a n = Some rl \<longrightarrow> (\<exists>rl'. refs b n = Some rl' \<and> ref_extends rl rl'))"

text \<open>The entries of every list are in the order of their objects, none after the
  current one.\<close>

definition refs_ordered :: "int \<Rightarrow> state \<Rightarrow> bool" where
  "refs_ordered k s \<longleftrightarrow>
     (\<forall>n rl. refs s n = Some rl \<longrightarrow>
        sorted (map ref_objidx rl) \<and> (\<forall>r\<in>set rl. ref_objidx r \<le> k))"


text \<open>The co-location flag of a base name in the mask table, and the names that a step
  from \<open>s\<close> to \<open>s'\<close> enters in the table of definitions.\<close>

definition has_sameobj :: "state \<Rightarrow> string \<Rightarrow> bool" where
  "has_sameobj s x \<longleftrightarrow> get_mask (defref s) x AND dsameobj \<noteq> 0"

definition newly_defined :: "state \<Rightarrow> state \<Rightarrow> string \<Rightarrow> bool" where
  "newly_defined s s' n \<longleftrightarrow> defs s n = None \<and> defs s' n \<noteq> None"

text \<open>Every flagged base name and its import form are defined in the same object.\<close>

definition sameobj_sound :: "state \<Rightarrow> bool" where
  "sameobj_sound s \<longleftrightarrow>
     (\<forall>x. has_sameobj s x \<longrightarrow>
        (\<exists>d1 d2. defs s x = Some d1 \<and> defs s (imppref @ x) = Some d2
                 \<and> def_objidx d1 = def_objidx d2))"

text \<open>What holds of the local map \<open>dl\<close> and the state \<open>t\<close> during the loop over the rows of a
  symbol table entered in the state \<open>s\<close>.\<close>

definition symtab_inv :: "state \<Rightarrow> string list \<times> state \<Rightarrow> bool" where
  "symtab_inv s a \<longleftrightarrow>
     (case a of (dl, t) \<Rightarrow>
        (\<forall>x. has_sameobj t x = has_sameobj s x)
        \<and> set dl = {n. newly_defined s t n}
        \<and> (\<forall>n. defs s n \<noteq> None \<longrightarrow> defs t n = defs s n)
        \<and> objidx t = objidx s
        \<and> (\<forall>n \<in> set dl. \<exists>d. defs t n = Some d \<and> def_objidx d = objidx s))"


text \<open>Two sets of interesting symbols that have grown from \<open>A\<close> and from \<open>B\<close> by the same
  names.\<close>

definition grown_alike :: "string set \<Rightarrow> string set \<Rightarrow> state \<Rightarrow> state \<Rightarrow> bool" where
  "grown_alike A B s t \<longleftrightarrow>
     (\<exists>N. set (all_syms s) = A \<union> N \<and> set (all_syms t) = B \<union> N)"

text \<open>The mask table \<open>D\<close> after the flags \<open>f x\<close> have been added to the mask of each base
  name \<open>x\<close> with the operator \<open>|\<close>: a name with no flag to add keeps its entry, or has
  none. Two states whose mask tables are \<open>D1\<close> and \<open>D2\<close> with the same flags added, and
  that hold the same interesting symbols.\<close>

definition or_masks ::
  "(string \<rightharpoonup> defrefmask) \<Rightarrow> (string \<Rightarrow> defrefmask) \<Rightarrow> (string \<rightharpoonup> defrefmask)"
where
  "or_masks D f = (\<lambda>x. if f x = 0 then D x else Some (get_mask D x OR f x))"

definition flags_alike ::
  "(string \<rightharpoonup> defrefmask) \<Rightarrow> (string \<rightharpoonup> defrefmask) \<Rightarrow> state \<Rightarrow> state \<Rightarrow> bool"
where
  "flags_alike D1 D2 s t \<longleftrightarrow>
     set (all_syms s) = set (all_syms t)
     \<and> (\<exists>f. defref s = or_masks D1 f \<and> defref t = or_masks D2 f)"


text \<open>The rounds of a loop over the scanner: for each round that is entered, the lines not
  yet scanned (the first is the line the round reads) and what the loop has changed so
  far. The same for the loop of \<open>digest\<close>, whose readers go on in the scanner.\<close>

fun scan_rounds ::
  "(string \<Rightarrow> 'a \<Rightarrow> 'a ctl) \<Rightarrow> string list \<Rightarrow> 'a \<Rightarrow> (string list \<times> 'a) list"
where
  "scan_rounds body [] a = []"
| "scan_rounds body (line # rest) a =
     (line # rest, a) #
     (case body line a of
        Next a' \<Rightarrow> scan_rounds body rest a'
      | Break a' \<Rightarrow> []
      | Fail e a' \<Rightarrow> [])"

function digest_rounds :: "globals \<Rightarrow> string list \<Rightarrow> state \<Rightarrow> (string list \<times> state) list" where
  "digest_rounds G [] s = []"
| "digest_rounds G (line # rest) s =
     (line # rest, s) #
     (case digest_line G line rest s of
        (Some e, rest', s') \<Rightarrow> []
      | (None, rest', s') \<Rightarrow> digest_rounds G rest' s')"
  by pat_completeness auto
termination
  by (relation "measure (\<lambda>(G, ls, s). length ls)")
     (auto dest: digest_line_length [OF sym] simp: less_Suc_eq_le)

section \<open>Concrete inputs\<close>

text \<open>The text whose lines are the given ones, each ended by a newline.\<close>

definition unlines :: "string list \<Rightarrow> string" where
  "unlines ls = concat (map (\<lambda>l. l @ [CHR 0x0A]) ls)"

text \<open>An object \<open>n.o\<close> whose symbol table refers to the import form of a symbol that is
  itself named like an import form.\<close>

definition symtab_nested :: "string list" where
  "symtab_nested =
     ['''', ''n.o:   file format coff-x86-64'', '''',
      ''SYMBOL TABLE:'',
      ''[ 0](sec  0)(fl 0x00)(ty   0)(scl   2) (nx 0) 0x00000000 __imp___imp_foo'',
      '''']"

definition env_nested :: env where
  "env_nested =
     \<lparr>objdump_t = (\<lambda>f. if f = ''n.o'' then Inr (unlines symtab_nested) else Inl ''exit status 1''),
      objdump_htr = (\<lambda>f. if f = ''n.o'' then Inr (unlines symtab_nested) else Inl ''exit status 1''),
      ReadFile = (\<lambda>f. None)\<rparr>"

definition symtab_a :: "string list" where
  "symtab_a =
     [''[ 0](sec  1)(fl 0x00)(ty   0)(scl   3) (nx 1) 0x00000000 .text'',
      ''AUX scnlen 0x37 nreloc 3 nlnno 0 checksum 0x0 assoc 1 comdat 0'',
      ''[ 2](sec  2)(fl 0x00)(ty   0)(scl   2) (nx 0) 0x00000000 __imp_foo'',
      ''[ 3](sec  0)(fl 0x00)(ty  20)(scl   2) (nx 0) 0x00000000 foo'',
      ''[ 4](sec  0)(fl 0x00)(ty   0)(scl   2) (nx 0) 0x00000000 __imp_baz'',
      ''[ 5](sec  0)(fl 0x00)(ty   0)(scl   2) (nx 0) 0x00000000 __imp_baz'',
      '''']"

definition relocs_a :: "string list" where
  "relocs_a =
     [''OFFSET           TYPE                     VALUE'',
      ''0000000000000007 IMAGE_REL_AMD64_REL32    foo'',
      ''000000000000000e IMAGE_REL_AMD64_REL32    __imp_baz'',
      ''000000000000001b IMAGE_REL_AMD64_REL32    __imp_baz'',
      ''0000000000000020 IMAGE_REL_AMD64_REL32    printf'',
      ''000000000000002c IMAGE_REL_AMD64_REL32    __imp_baz'',
      '''']"

definition dump_t_a :: "string list" where
  "dump_t_a =
     ['''',
      ''a.o:   file format coff-x86-64'',
      '''',
      ''SYMBOL TABLE:''] @ symtab_a"

definition dump_htr_a :: "string list" where
  "dump_htr_a =
     ['''',
      ''a.o:   file format coff-x86-64'',
      '''',
      ''Sections:'',
      ''Idx Name          Size     VMA              Type'',
      ''  0 .text         00000037 0000000000000000 TEXT'',
      ''  1 .data         00000000 0000000000000000 DATA'',
      '''',
      ''SYMBOL TABLE:''] @ symtab_a
     @ [''RELOCATION RECORDS FOR [.text]:''] @ relocs_a"

definition symtab_b :: "string list" where
  "symtab_b =
     [''[ 0](sec  1)(fl 0x00)(ty  20)(scl   2) (nx 0) 0x00000010 foo'',
      ''[ 1](sec  2)(fl 0x00)(ty   0)(scl   2) (nx 0) 0x00000000 __imp_bar'',
      ''[ 2](sec  1)(fl 0x00)(ty  20)(scl   2) (nx 0) 0x00000020 bar'',
      '''']"

definition relocs_b :: "string list" where
  "relocs_b =
     [''OFFSET           TYPE                     VALUE'',
      ''0000000000000004 IMAGE_REL_AMD64_REL32    bar'',
      '''']"

definition dump_t_b :: "string list" where
  "dump_t_b =
     ['''',
      ''b.o:   file format coff-x86-64'',
      '''',
      ''SYMBOL TABLE:''] @ symtab_b"

definition dump_htr_b :: "string list" where
  "dump_htr_b =
     ['''',
      ''b.o:   file format coff-x86-64'',
      '''',
      ''Sections:'',
      ''Idx Name          Size     VMA              Type'',
      ''  0 .text         00000020 0000000000000000 TEXT'',
      '''',
      ''SYMBOL TABLE:''] @ symtab_b
     @ [''RELOCATION RECORDS FOR [.text]:''] @ relocs_b"


text \<open>Two objects: \<open>a.o\<close> defines \<open>__imp_foo\<close>, refers to \<open>foo\<close> and refers twice to
  \<open>__imp_baz\<close>, with three relocations against it; \<open>b.o\<close> defines \<open>foo\<close>, and both
  \<open>__imp_bar\<close> and \<open>bar\<close>. Beside \<open>a.o\<close> there is a file \<open>a.txt\<close>.\<close>

definition env_ab :: env where
  "env_ab =
     \<lparr>objdump_t = (\<lambda>f. if f = ''a.o'' then Inr (unlines dump_t_a)
                       else if f = ''b.o'' then Inr (unlines dump_t_b)
                       else Inl ''exit status 1''),
      objdump_htr = (\<lambda>f. if f = ''a.o'' then Inr (unlines dump_htr_a)
                       else if f = ''b.o'' then Inr (unlines dump_htr_b)
                       else Inl ''exit status 1''),
      ReadFile = (\<lambda>f. if f = ''a.txt'' then Some (unlines [''cc -c a.c'', ''pn: /src/a.c''])
                       else None)\<rparr>"

text \<open>The state of the run on \<open>a.o\<close> and \<open>b.o\<close> when pass 3 has read the symbol table of
  \<open>a.o\<close>, the first object.\<close>

definition state_a_symtab :: state where
  "state_a_symtab =
     snd (snd (readSymtab (mkGlobals False []) symtab_a
       ((pass2 (snd (pass1_files env_ab (mkGlobals False []) 0 [''a.o'', ''b.o'']
           (newState [''a.o'', ''b.o'']))))\<lparr>objidx := 0\<rparr>)))"



text \<open>Two more objects: \<open>c.o\<close> has no symbol table and a relocation against \<open>__imp_baz\<close>;
  \<open>d.o\<close> defines \<open>__imp_bar\<close>, which \<open>b.o\<close> defines too.\<close>

definition dump_t_c :: "string list" where
  "dump_t_c =
     ['''',
      ''c.o:   file format coff-x86-64'',
      '''']"

definition dump_htr_c :: "string list" where
  "dump_htr_c =
     dump_t_c @
     [''RELOCATION RECORDS FOR [.text]:'',
      ''OFFSET           TYPE                     VALUE'',
      ''000000000000000e IMAGE_REL_AMD64_REL32    __imp_baz'',
      '''']"

definition dump_d :: "string list" where
  "dump_d =
     ['''',
      ''d.o:   file format coff-x86-64'',
      '''',
      ''SYMBOL TABLE:'',
      ''[ 1](sec  2)(fl 0x00)(ty   0)(scl   2) (nx 0) 0x00000000 __imp_bar'',
      '''']"

definition env_cd :: env where
  "env_cd =
     \<lparr>objdump_t = (\<lambda>f. if f = ''c.o'' then Inr (unlines dump_t_c)
                       else if f = ''d.o'' then Inr (unlines dump_d)
                       else objdump_t env_ab f),
      objdump_htr = (\<lambda>f. if f = ''c.o'' then Inr (unlines dump_htr_c)
                       else if f = ''d.o'' then Inr (unlines dump_d)
                       else objdump_htr env_ab f),
      ReadFile = ReadFile env_ab\<rparr>"

text \<open>The state of the run on \<open>a.o\<close> and \<open>c.o\<close> when pass 3 has read \<open>a.o\<close>, and of the run on
  \<open>b.o\<close> and \<open>d.o\<close> when pass 3 has read \<open>b.o\<close>.\<close>

definition state_a_done :: state where
  "state_a_done =
     snd (pass3_files env_cd (mkGlobals False []) 0 [''a.o'']
       (pass2 (snd (pass1_files env_cd (mkGlobals False []) 0 [''a.o'', ''c.o'']
          (newState [''a.o'', ''c.o''])))))"

definition state_b_done :: state where
  "state_b_done =
     snd (pass3_files env_cd (mkGlobals False []) 0 [''b.o'']
       (pass2 (snd (pass1_files env_cd (mkGlobals False []) 0 [''b.o'', ''d.o'']
          (newState [''b.o'', ''d.o''])))))"

section \<open>How the loops carry a property\<close>

text \<open>A relation between the state before and the state after that is reflexive and
  transitive and holds across every round of a body holds across the loop. An invariant
  \<open>I\<close> is the relation \<open>\<lambda>a b. I a \<longrightarrow> I b\<close>.\<close>

lemma scan_loop_rel:
  assumes refl: "\<And>a. R a a"
    and trans: "\<And>a b c. R a b \<Longrightarrow> R b c \<Longrightarrow> R a c"
    and step: "\<And>line a. R a (ctl_val (body line a))"
  shows "R a (snd (snd (scan_loop body ls a)))"
proof (induction ls arbitrary: a)
  case Nil
  show ?case by (simp add: refl)
next
  case (Cons line rest)
  show ?case
  proof (cases "body line a")
    case (Next a')
    then have "R a a'" using step [of a line] by simp
    moreover have "R a' (snd (snd (scan_loop body rest a')))" by (rule Cons)
    ultimately have "R a (snd (snd (scan_loop body rest a')))" by (rule trans)
    then show ?thesis using Next by simp
  next
    case (Break a')
    then show ?thesis using step [of a line] by simp
  next
    case (Fail e a')
    then show ?thesis using step [of a line] by simp
  qed
qed

lemma pass1_scan_rel:
  assumes refl: "\<And>s. R s s"
    and trans: "\<And>a b c. R a b \<Longrightarrow> R b c \<Longrightarrow> R a c"
    and step: "\<And>line s. R s (ctl_val (pass1_symtab G line s))"
  shows "R s (snd (pass1_scan G ls s))"
  using step
proof (induction G ls s rule: pass1_scan.induct)
  case (1 G s)
  show ?case by (simp add: refl)
next
  case (2 G line rest s)
  note step = "2.prems"
  show ?case
  proof (cases "line = ''SYMBOL TABLE:''")
    case False
    with 2 show ?thesis by simp
  next
    case True
    obtain e rest' s' where r: "scan_loop (pass1_symtab G) rest s = (e, rest', s')"
      using prod_cases3 by blast
    have a: "R s s'"
      using scan_loop_rel [of R "pass1_symtab G" s rest, OF refl trans step] r by simp
    show ?thesis
    proof (cases e)
      case None
      have "R s' (snd (pass1_scan G rest' s'))"
        using "2.IH" (1) [OF True r [symmetric]] None step by simp
      with a have "R s (snd (pass1_scan G rest' s'))" by (rule trans)
      then show ?thesis using True r None by simp
    next
      case (Some err)
      with a show ?thesis using True r by simp
    qed
  qed
qed

lemma readSections_rel:
  assumes "\<And>a. R a a" "\<And>a b c. R a b \<Longrightarrow> R b c \<Longrightarrow> R a c"
    and "\<And>line s. R s (ctl_val (readSections_row line s))"
  shows "R s (snd (snd (readSections ls s)))"
  unfolding readSections_def using assms by (rule scan_loop_rel)

lemma readRelocations_rel:
  assumes "\<And>a. R a a" "\<And>a b c. R a b \<Longrightarrow> R b c \<Longrightarrow> R a c"
    and "\<And>line s. R s (ctl_val (readRelocations_row G line s))"
  shows "R s (snd (snd (readRelocations G rline ls s)))"
  unfolding readRelocations_def Let_def
  using scan_loop_rel [of R "readRelocations_row G", OF assms] assms(1) by simp

lemma digest_line_rel:
  assumes refl: "\<And>s. R s s"
    and trans: "\<And>a b c. R a b \<Longrightarrow> R b c \<Longrightarrow> R a c"
    and sec: "\<And>line s. R s (ctl_val (readSections_row line s))"
    and sym: "\<And>ls s. R s (snd (snd (readSymtab G ls s)))"
    and rel: "\<And>line s. R s (ctl_val (readRelocations_row G line s))"
  shows "R s (snd (snd (digest_line G line ls s)))"
proof -
  obtain e1 ls1 s1 where 1:
    "(if line = ''Sections:'' then readSections ls s else (None, ls, s)) = (e1, ls1, s1)"
    using prod_cases3 by blast
  obtain e2 ls2 s2 where 2:
    "(if line = ''SYMBOL TABLE:'' then readSymtab G ls1 s1 else (None, ls1, s1)) = (e2, ls2, s2)"
    using prod_cases3 by blast
  obtain e3 ls3 s3 where 3:
    "(if HasPrefix line ''RELOCATION RECORDS FOR [''
      then readRelocations G line ls2 s2 else (None, ls2, s2)) = (e3, ls3, s3)"
    using prod_cases3 by blast
  have a: "R s s1"
    using 1 readSections_rel [of R s ls, OF refl trans sec] refl by (auto split: if_splits)
  have b: "R s1 s2"
    using 2 sym [of s1 ls1] refl by (auto split: if_splits)
  have c: "R s2 s3"
    using 3 readRelocations_rel [of R G s2 line ls2, OF refl trans rel] refl
    by (auto split: if_splits)
  have ab: "R s s2" using a b by (rule trans)
  have abc: "R s s3" using ab c by (rule trans)
  have "snd (snd (digest_line G line ls s)) = s1 \<or> snd (snd (digest_line G line ls s)) = s2
        \<or> snd (snd (digest_line G line ls s)) = s3"
    unfolding digest_line_def 1 using 2 3 by (cases e1; cases e2) auto
  with a ab abc show ?thesis by auto
qed

lemma digest_loop_rel:
  assumes refl: "\<And>s. R s s"
    and trans: "\<And>a b c. R a b \<Longrightarrow> R b c \<Longrightarrow> R a c"
    and sec: "\<And>line s. R s (ctl_val (readSections_row line s))"
    and sym: "\<And>ls s. R s (snd (snd (readSymtab G ls s)))"
    and rel: "\<And>line s. R s (ctl_val (readRelocations_row G line s))"
  shows "R s (snd (digest_loop G ls s))"
  using sec sym rel
proof (induction G ls s rule: digest_loop.induct)
  case (1 G s)
  show ?case by (simp add: refl)
next
  case (2 G line rest s)
  note sec = "2.prems" (1) and sym = "2.prems" (2) and rel = "2.prems" (3)
  obtain e rest' s' where r: "digest_line G line rest s = (e, rest', s')"
    using prod_cases3 by blast
  have a: "R s s'"
    using digest_line_rel [of R G s line rest, OF refl trans sec sym rel] r by simp
  show ?case
  proof (cases e)
    case None
    have "R s' (snd (digest_loop G rest' s'))"
      using "2.IH" [OF r [symmetric]] None sec sym rel by simp
    with a have "R s (snd (digest_loop G rest' s'))" by (rule trans)
    then show ?thesis using r None by simp
  next
    case (Some err)
    with a show ?thesis using r by simp
  qed
qed

lemma readSymtab_rel:
  assumes refl: "\<And>s. R s s"
    and trans: "\<And>a b c. R a b \<Longrightarrow> R b c \<Longrightarrow> R a c"
    and row: "\<And>secidx val sname dl s. R s (snd (ctl_val (admit_row G secidx val sname (dl, s))))"
    and same: "\<And>dl k s. R s (sameobj_step dl k s)"
  shows "R s (snd (snd (readSymtab G ls s)))"
proof -
  define R' where "R' = (\<lambda>(a :: string list \<times> state) (b :: string list \<times> state). R (snd a) (snd b))"
  have step: "R' a (ctl_val (readSymtab_row G line a))" for line a
    using refl row [of "snd a" _ _ _ "fst a"]
    by (auto simp: R'_def readSymtab_row_def Let_def split: option.splits)
  have refl': "R' a a" for a by (simp add: R'_def refl split: prod.splits)
  have trans': "R' a b \<Longrightarrow> R' b c \<Longrightarrow> R' a c" for a b c
    unfolding R'_def using trans by (auto split: prod.splits)
  have "R' ([], s) (snd (snd (scan_loop (readSymtab_row G) ls ([], s))))"
    using refl' trans' step by (rule scan_loop_rel [of R'])
  moreover obtain e rest dl s1 where r: "scan_loop (readSymtab_row G) ls ([], s) = (e, rest, dl, s1)"
    using prod_cases4 by blast
  ultimately have a: "R s s1" by (simp add: R'_def)
  have f: "R t (fold (sameobj_step dl) ks t)" for ks t
  proof (induction ks arbitrary: t)
    case Nil
    show ?case by (simp add: refl)
  next
    case (Cons k ks)
    have "R t (sameobj_step dl k t)" by (rule same)
    moreover have "R (sameobj_step dl k t) (fold (sameobj_step dl) ks (sameobj_step dl k t))"
      by (rule Cons)
    ultimately have "R t (fold (sameobj_step dl) ks (sameobj_step dl k t))" by (rule trans)
    then show ?case by simp
  qed
  have "R s (fold (sameobj_step dl) dl s1)" using a f [of s1 dl] by (rule trans)
  with a show ?thesis using r by (cases e) (simp_all add: readSymtab_def)
qed

lemma pass3_rel:
  assumes refl: "\<And>s. R s s"
    and trans: "\<And>a b c. R a b \<Longrightarrow> R b c \<Longrightarrow> R a c"
    and sec: "\<And>line s. R s (ctl_val (readSections_row line s))"
    and row: "\<And>secidx val sname dl s. R s (snd (ctl_val (admit_row G secidx val sname (dl, s))))"
    and same: "\<And>dl k s. R s (sameobj_step dl k s)"
    and rel: "\<And>line s. R s (ctl_val (readRelocations_row G line s))"
    and paths: "\<And>s p. R s (s\<lparr>paths := p\<rparr>)"
  shows "R s (snd (pass3 E G infile s))"
proof (cases "objdump_htr E infile")
  case (Inl err)
  then show ?thesis by (simp add: pass3_def refl)
next
  case (Inr out)
  have sym: "R s (snd (snd (readSymtab G ls s)))" for ls s
    using refl trans row same by (rule readSymtab_rel)
  have d: "R s (snd (digest_loop G (ScanLines out) s))"
    using refl trans sec sym rel by (rule digest_loop_rel)
  obtain e s1 where r: "digest_loop G (ScanLines out) s = (e, s1)" by fastforce
  have d': "R s s1" using d r by simp
  have "R s1 (s1\<lparr>paths := paths s1 @ [pathinfo E infile]\<rparr>)" by (rule paths)
  with d' have "R s (s1\<lparr>paths := paths s1 @ [pathinfo E infile]\<rparr>)" by (rule trans)
  with d' r Inr show ?thesis by (cases e) (simp_all add: pass3_def digest_def)
qed

lemma pass1_rel:
  assumes refl: "\<And>s. R s s"
    and trans: "\<And>a b c. R a b \<Longrightarrow> R b c \<Longrightarrow> R a c"
    and step: "\<And>line s. R s (ctl_val (pass1_symtab G line s))"
  shows "R s (snd (pass1 E G infile s))"
  using pass1_scan_rel [of R G, OF assms] refl
  by (cases "objdump_t E infile") (simp_all add: pass1_def)

lemma pass1_files_rel:
  assumes refl: "\<And>s. R s s"
    and trans: "\<And>a b c. R a b \<Longrightarrow> R b c \<Longrightarrow> R a c"
    and step: "\<And>line s. R s (ctl_val (pass1_symtab G line s))"
    and idx: "\<And>s k. R s (s\<lparr>objidx := k\<rparr>)"
  shows "R s (snd (pass1_files E G k files s))"
proof (induction files arbitrary: k s)
  case Nil
  show ?case by (simp add: refl)
next
  case (Cons f files)
  obtain e s1 where r: "pass1 E G f (s\<lparr>objidx := k\<rparr>) = (e, s1)" by fastforce
  have "R (s\<lparr>objidx := k\<rparr>) s1"
    using pass1_rel [of R G "s\<lparr>objidx := k\<rparr>" E f, OF refl trans step] r by simp
  with idx [of s k] have a: "R s s1" by (rule trans)
  show ?case
  proof (cases e)
    case None
    have "R s1 (snd (pass1_files E G (k + 1) files s1))" by (rule Cons)
    with a have "R s (snd (pass1_files E G (k + 1) files s1))" by (rule trans)
    with r None show ?thesis by simp
  next
    case (Some err)
    with a r show ?thesis by simp
  qed
qed

lemma pass3_files_rel:
  assumes refl: "\<And>s. R s s"
    and trans: "\<And>a b c. R a b \<Longrightarrow> R b c \<Longrightarrow> R a c"
    and sec: "\<And>line s. R s (ctl_val (readSections_row line s))"
    and row: "\<And>secidx val sname dl s. R s (snd (ctl_val (admit_row G secidx val sname (dl, s))))"
    and same: "\<And>dl k s. R s (sameobj_step dl k s)"
    and rel: "\<And>line s. R s (ctl_val (readRelocations_row G line s))"
    and paths: "\<And>s p. R s (s\<lparr>paths := p\<rparr>)"
    and idx: "\<And>s k. R s (s\<lparr>objidx := k\<rparr>)"
  shows "R s (snd (pass3_files E G k files s))"
proof (induction files arbitrary: k s)
  case Nil
  show ?case by (simp add: refl)
next
  case (Cons f files)
  obtain e s1 where r: "pass3 E G f (s\<lparr>objidx := k\<rparr>) = (e, s1)" by fastforce
  have "R (s\<lparr>objidx := k\<rparr>) s1"
    using pass3_rel [of R G "s\<lparr>objidx := k\<rparr>" E f, OF refl trans sec row same rel paths] r
    by simp
  with idx [of s k] have a: "R s s1" by (rule trans)
  show ?case
  proof (cases e)
    case None
    have "R s1 (snd (pass3_files E G (k + 1) files s1))" by (rule Cons)
    with a have "R s (snd (pass3_files E G (k + 1) files s1))" by (rule trans)
    with r None show ?thesis by simp
  next
    case (Some err)
    with a r show ?thesis by simp
  qed
qed

subsection \<open>What each step leaves alone\<close>

lemma pass1_symtab_frame [simp]:
  "defs (ctl_val (pass1_symtab G line s)) = defs s"
  "refs (ctl_val (pass1_symtab G line s)) = refs s"
  "defref (ctl_val (pass1_symtab G line s)) = defref s"
  "objidx (ctl_val (pass1_symtab G line s)) = objidx s"
  by (simp_all add: pass1_symtab_def Let_def)

lemma readSections_row_frame [simp]:
  "defs (ctl_val (readSections_row line s)) = defs s"
  "refs (ctl_val (readSections_row line s)) = refs s"
  "defref (ctl_val (readSections_row line s)) = defref s"
  "all_syms (ctl_val (readSections_row line s)) = all_syms s"
  "objidx (ctl_val (readSections_row line s)) = objidx s"
  by (simp_all add: readSections_row_def Let_def split: option.splits)

lemma maskAdd_frame [simp]:
  "defs (maskAddDef n s) = defs s" "refs (maskAddDef n s) = refs s"
  "all_syms (maskAddDef n s) = all_syms s" "objidx (maskAddDef n s) = objidx s"
  "defs (maskAddRef n s) = defs s" "refs (maskAddRef n s) = refs s"
  "all_syms (maskAddRef n s) = all_syms s" "objidx (maskAddRef n s) = objidx s"
  by (simp_all add: maskAddDef_def maskAddRef_def Let_def)

lemma admit_row_frame [simp]:
  "all_syms (snd (ctl_val (admit_row G secidx val sname (dl, s)))) = all_syms s"
  "objidx (snd (ctl_val (admit_row G secidx val sname (dl, s)))) = objidx s"
  by (simp_all add: admit_row_def Let_def)

lemma sameobj_step_frame [simp]:
  "defs (sameobj_step dl k s) = defs s" "refs (sameobj_step dl k s) = refs s"
  "all_syms (sameobj_step dl k s) = all_syms s" "objidx (sameobj_step dl k s) = objidx s"
  by (simp_all add: sameobj_step_def Let_def)

lemma readRelocations_row_frame [simp]:
  "defs (ctl_val (readRelocations_row G line s)) = defs s"
  "defref (ctl_val (readRelocations_row G line s)) = defref s"
  "all_syms (ctl_val (readRelocations_row G line s)) = all_syms s"
  "objidx (ctl_val (readRelocations_row G line s)) = objidx s"
  by (simp_all add: readRelocations_row_def Let_def split: option.splits prod.splits)

subsection \<open>What pass 2 adds\<close>

lemma pass2_set:
  "set (all_syms (pass2 s)) =
     set (all_syms s) \<union> {drop (length imppref) k | k. k \<in> set (all_syms s) \<and> HasPrefix k imppref}"
proof -
  have "set (fold (\<lambda>k a. if HasPrefix k imppref then insert_key (drop (length imppref) k) a else a) ks a)
        = set a \<union> {drop (length imppref) k | k. k \<in> set ks \<and> HasPrefix k imppref}" for ks a
    by (induction ks arbitrary: a) (auto simp: insert_key_def)
  then show ?thesis by (simp add: pass2_def)
qed

text \<open>Pass 2 adds the base of every import form that pass 1 found, whatever the order in
  which the keys are visited.\<close>

lemma pass2_adds_bases:
  "n \<in> set (all_syms s) \<Longrightarrow> HasPrefix n imppref \<Longrightarrow>
     drop (length imppref) n \<in> set (all_syms (pass2 s))"
  by (auto simp: pass2_set)


section \<open>Two runs of a loop over the same lines\<close>

text \<open>When the body, from two related states, ends its round the same way and keeps the
  states related unless it fails in one of them, two runs of the loop that both end
  without an error leave the same lines and related states.\<close>

lemma scan_loop_par:
  assumes "scan_loop body ls a = (None, r1, a')" and "scan_loop body ls b = (None, r2, b')"
    and "P a b"
    and step: "\<And>line a b. P a b \<Longrightarrow> \<not> is_Fail (body line a) \<Longrightarrow> \<not> is_Fail (body line b) \<Longrightarrow>
                 P (ctl_val (body line a)) (ctl_val (body line b))
                 \<and> (is_Break (body line a) \<longleftrightarrow> is_Break (body line b))"
  shows "r1 = r2 \<and> P a' b'"
  using assms(1-3)
proof (induction ls arbitrary: a b)
  case Nil
  then show ?case by simp
next
  case (Cons line ls)
  from Cons.prems(1) have fa: "\<not> is_Fail (body line a)"
    by (cases "body line a") auto
  from Cons.prems(2) have fb: "\<not> is_Fail (body line b)"
    by (cases "body line b") auto
  note s = step [OF Cons.prems(3) fa fb]
  show ?case
  proof (cases "body line a")
    case (Next a1)
    with s fb obtain b1 where b1: "body line b = Next b1"
      by (cases "body line b") auto
    from s Next b1 have "P a1 b1" by simp
    moreover from Cons.prems(1) Next have "scan_loop body ls a1 = (None, r1, a')" by simp
    moreover from Cons.prems(2) b1 have "scan_loop body ls b1 = (None, r2, b')" by simp
    ultimately show ?thesis using Cons.IH by blast
  next
    case (Break a1)
    with s fb obtain b1 where b1: "body line b = Break b1"
      by (cases "body line b") auto
    from s Break b1 have "P a1 b1" by simp
    then show ?thesis using Cons.prems(1,2) Break b1 by simp
  next
    case (Fail e a1)
    with fa show ?thesis by simp
  qed
qed

subsection \<open>Pass 1\<close>

text \<open>Whether pass 1 adds a name does not depend on the set it adds to: a name that is
  interesting only because it is in the set is in the set already.\<close>

lemma pass1_symtab_par:
  assumes "grown_alike A B s t"
  shows "grown_alike A B (ctl_val (pass1_symtab G line s)) (ctl_val (pass1_symtab G line t))
         \<and> (is_Break (pass1_symtab G line s) \<longleftrightarrow> is_Break (pass1_symtab G line t))"
proof -
  from assms obtain N where N: "set (all_syms s) = A \<union> N" "set (all_syms t) = B \<union> N"
    by (auto simp: grown_alike_def)
  let ?n = "FindStringSubmatch symre line ! 3"
  let ?static = "HasPrefix ?n ''__imp'' \<or> allsymsflag G \<or> get_bool (watched G) ?n"
  have b: "is_Break (pass1_symtab G line s) \<longleftrightarrow> is_Break (pass1_symtab G line t)"
    by (simp add: pass1_symtab_def Let_def)
  have "set (all_syms (ctl_val (pass1_symtab G line s))) = A \<union> N
        \<and> set (all_syms (ctl_val (pass1_symtab G line t))) = B \<union> N
      \<or> set (all_syms (ctl_val (pass1_symtab G line s))) = A \<union> insert ?n N
        \<and> set (all_syms (ctl_val (pass1_symtab G line t))) = B \<union> insert ?n N"
    using N by (auto simp: pass1_symtab_def Let_def isInterestingSym_def insert_key_def)
  then have "grown_alike A B (ctl_val (pass1_symtab G line s)) (ctl_val (pass1_symtab G line t))"
    unfolding grown_alike_def by blast
  with b show ?thesis by simp
qed

lemma pass1_scan_par:
  assumes "pass1_scan G ls s = (None, s')" and "pass1_scan G ls t = (None, t')"
    and "grown_alike A B s t"
  shows "grown_alike A B s' t'"
  using assms
proof (induction G ls s arbitrary: t rule: pass1_scan.induct)
  case (1 G s)
  then show ?case by simp
next
  case (2 G line rest s)
  show ?case
  proof (cases "line = ''SYMBOL TABLE:''")
    case False
    with 2 show ?thesis by simp
  next
    case True
    obtain e1 r1 s1 where a: "scan_loop (pass1_symtab G) rest s = (e1, r1, s1)"
      using prod_cases3 by blast
    obtain e2 r2 t1 where b: "scan_loop (pass1_symtab G) rest t = (e2, r2, t1)"
      using prod_cases3 by blast
    from "2.prems"(1) True a have e1: "e1 = None" by (cases e1) auto
    from "2.prems"(2) True b have e2: "e2 = None" by (cases e2) auto
    have "r1 = r2 \<and> grown_alike A B s1 t1"
      using a [unfolded e1] b [unfolded e2] "2.prems"(3)
      by (rule scan_loop_par) (simp add: pass1_symtab_par)
    moreover have "pass1_scan G r1 s1 = (None, s')"
      using "2.prems"(1) True a e1 by simp
    moreover have "pass1_scan G r2 t1 = (None, t')"
      using "2.prems"(2) True b e2 by simp
    ultimately show ?thesis
      using "2.IH"(1) [OF True a [symmetric], of r1 s1 t1] e1 by simp
  qed
qed

lemma pass1_par:
  assumes "pass1 E G infile s = (None, s')" and "pass1 E G infile t = (None, t')"
  shows "\<exists>N. set (all_syms s') = set (all_syms s) \<union> N \<and> set (all_syms t') = set (all_syms t) \<union> N"
proof (cases "objdump_t E infile")
  case (Inl err)
  with assms show ?thesis by (simp add: pass1_def)
next
  case (Inr out)
  have "grown_alike (set (all_syms s)) (set (all_syms t)) s t"
    unfolding grown_alike_def by (rule exI [of _ "{}"]) simp
  with assms Inr have "grown_alike (set (all_syms s)) (set (all_syms t)) s' t'"
    by (auto simp: pass1_def intro: pass1_scan_par)
  then show ?thesis by (simp add: grown_alike_def)
qed

subsection \<open>Pass 3\<close>

lemma get_mask_or_masks: "get_mask (or_masks D f) x = get_mask D x OR f x"
  by (simp add: or_masks_def get_mask_def)

lemma or_masks_none: "or_masks D (\<lambda>x. 0) = D"
  by (simp add: or_masks_def)

lemma or_masks_update:
  assumes "m \<noteq> 0"
  shows "(or_masks D f)(x \<mapsto> get_mask (or_masks D f) x OR m) = or_masks D (f(x := f x OR m))"
proof (rule ext)
  fix y
  show "((or_masks D f)(x \<mapsto> get_mask (or_masks D f) x OR m)) y
        = or_masks D (f(x := f x OR m)) y"
  proof (cases "y = x")
    case True
    from assms have "f x OR m \<noteq> 0" by (simp add: or_eq_0_iff)
    with True show ?thesis
      by (simp add: get_mask_or_masks) (simp add: or_masks_def ac_simps)
  next
    case False
    then show ?thesis by (simp add: or_masks_def)
  qed
qed

lemma or_masks_twice: "or_masks (or_masks D f) g = or_masks D (\<lambda>x. f x OR g x)"
proof (rule ext)
  fix x
  show "or_masks (or_masks D f) g x = or_masks D (\<lambda>x. f x OR g x) x"
  proof (cases "g x = 0")
    case True
    then show ?thesis by (simp add: or_masks_def)
  next
    case False
    then have "f x OR g x \<noteq> 0" by (simp add: or_eq_0_iff)
    with False have "or_masks (or_masks D f) g x = Some (get_mask (or_masks D f) x OR g x)"
      "or_masks D (\<lambda>x. f x OR g x) x = Some (get_mask D x OR (f x OR g x))"
      by (simp_all add: or_masks_def)
    then show ?thesis by (simp add: get_mask_or_masks ac_simps)
  qed
qed

lemma flags_alike_cong:
  "flags_alike D1 D2 s t \<Longrightarrow> defref s' = defref s \<Longrightarrow> all_syms s' = all_syms s \<Longrightarrow>
   defref t' = defref t \<Longrightarrow> all_syms t' = all_syms t \<Longrightarrow> flags_alike D1 D2 s' t'"
  by (simp add: flags_alike_def)

lemma flags_alike_or:
  assumes "flags_alike D1 D2 s t" and "m \<noteq> 0"
    and "defref s' = (defref s)(x \<mapsto> get_mask (defref s) x OR m)"
    and "defref t' = (defref t)(x \<mapsto> get_mask (defref t) x OR m)"
    and "all_syms s' = all_syms s" and "all_syms t' = all_syms t"
  shows "flags_alike D1 D2 s' t'"
proof -
  from assms(1) obtain f where f: "defref s = or_masks D1 f" "defref t = or_masks D2 f"
    and a: "set (all_syms s) = set (all_syms t)"
    by (auto simp: flags_alike_def)
  have "defref s' = or_masks D1 (f(x := f x OR m))"
    unfolding assms(3) f by (rule or_masks_update [OF assms(2)])
  moreover have "defref t' = or_masks D2 (f(x := f x OR m))"
    unfolding assms(4) f by (rule or_masks_update [OF assms(2)])
  ultimately show ?thesis
    unfolding flags_alike_def using a assms(5,6) by auto
qed

lemma flag_not_zero:
  "defbase \<noteq> 0" "refbase \<noteq> 0" "defimp \<noteq> 0" "refimp \<noteq> 0" "dsameobj \<noteq> 0"
  by (simp_all add: defbase_def refbase_def defimp_def refimp_def dsameobj_def)

lemma maskAddDef_par:
  "flags_alike D1 D2 s t \<Longrightarrow> flags_alike D1 D2 (maskAddDef n s) (maskAddDef n t)"
  by (cases "HasPrefix n imppref")
     (erule flags_alike_or, simp_all add: maskAddDef_def Let_def flag_not_zero)+

lemma maskAddRef_par:
  "flags_alike D1 D2 s t \<Longrightarrow> flags_alike D1 D2 (maskAddRef n s) (maskAddRef n t)"
  by (cases "HasPrefix n imppref")
     (erule flags_alike_or, simp_all add: maskAddRef_def Let_def flag_not_zero)+

lemma sameobj_step_par:
  "flags_alike D1 D2 s t \<Longrightarrow> flags_alike D1 D2 (sameobj_step dl k s) (sameobj_step dl k t)"
  by (cases "HasPrefix k imppref \<and> drop (length imppref) k \<in> set dl")
     (erule flags_alike_or, simp_all add: sameobj_step_def Let_def flag_not_zero)+

lemma fold_sameobj_par:
  "flags_alike D1 D2 s t \<Longrightarrow>
     flags_alike D1 D2 (fold (sameobj_step dl) ks s) (fold (sameobj_step dl) ks t)"
  by (induction ks arbitrary: s t) (simp_all add: sameobj_step_par)

lemma admit_row_shape:
  assumes "\<not> is_Fail (admit_row G secidx val n (dl, s))"
  shows "\<exists>s'. admit_row G secidx val n (dl, s)
           = Next (if isInterestingSym G s n \<and> secidx \<noteq> 0 then insert_key n dl else dl, s')
         \<and> all_syms s' = all_syms s
         \<and> defref s' = (if \<not> isInterestingSym G s n then defref s
                         else if secidx \<noteq> 0 then defref (maskAddDef n s)
                         else defref (maskAddRef n s))"
proof (cases "isInterestingSym G s n")
  case False
  then show ?thesis by (simp add: admit_row_def)
next
  case True
  show ?thesis
  proof (cases "secidx = 0")
    case True
    with \<open>isInterestingSym G s n\<close> show ?thesis
      by (simp add: admit_row_def Let_def maskAddRef_def)
  next
    case False
    with assms \<open>isInterestingSym G s n\<close> have "defs s n = None"
      by (cases "defs s n") (simp_all add: admit_row_def Let_def)
    with False \<open>isInterestingSym G s n\<close> show ?thesis
      by (simp add: admit_row_def Let_def maskAddDef_def)
  qed
qed

lemma interesting_alike:
  "flags_alike D1 D2 s t \<Longrightarrow> isInterestingSym G s n = isInterestingSym G t n"
  by (simp add: flags_alike_def isInterestingSym_def)

lemma admit_row_par:
  assumes al: "flags_alike D1 D2 s t"
    and "\<not> is_Fail (admit_row G secidx val n (dl, s))"
    and "\<not> is_Fail (admit_row G secidx val n (dl, t))"
  shows "(fst (ctl_val (admit_row G secidx val n (dl, s)))
            = fst (ctl_val (admit_row G secidx val n (dl, t)))
          \<and> flags_alike D1 D2 (snd (ctl_val (admit_row G secidx val n (dl, s))))
              (snd (ctl_val (admit_row G secidx val n (dl, t)))))
         \<and> (is_Break (admit_row G secidx val n (dl, s))
              \<longleftrightarrow> is_Break (admit_row G secidx val n (dl, t)))"
proof -
  note i = interesting_alike [OF al, of G n]
  from admit_row_shape [OF assms(2)] obtain s' where
    s: "admit_row G secidx val n (dl, s)
          = Next (if isInterestingSym G s n \<and> secidx \<noteq> 0 then insert_key n dl else dl, s')"
    and sa: "all_syms s' = all_syms s"
    and sd: "defref s' = (if \<not> isInterestingSym G s n then defref s
                         else if secidx \<noteq> 0 then defref (maskAddDef n s)
                         else defref (maskAddRef n s))"
    by blast
  from admit_row_shape [OF assms(3)] obtain t' where
    t: "admit_row G secidx val n (dl, t)
          = Next (if isInterestingSym G t n \<and> secidx \<noteq> 0 then insert_key n dl else dl, t')"
    and ta: "all_syms t' = all_syms t"
    and td: "defref t' = (if \<not> isInterestingSym G t n then defref t
                         else if secidx \<noteq> 0 then defref (maskAddDef n t)
                         else defref (maskAddRef n t))"
    by blast
  have "flags_alike D1 D2 s' t'"
  proof (cases "isInterestingSym G s n")
    case False
    with al i sa sd ta td show ?thesis by (auto intro: flags_alike_cong)
  next
    case True
    show ?thesis
    proof (cases "secidx = 0")
      case True
      from maskAddRef_par [OF al, of n] show ?thesis
        by (rule flags_alike_cong)
           (use True \<open>isInterestingSym G s n\<close> i sa sd ta td in simp_all)
    next
      case False
      from maskAddDef_par [OF al, of n] show ?thesis
        by (rule flags_alike_cong)
           (use False \<open>isInterestingSym G s n\<close> i sa sd ta td in simp_all)
    qed
  qed
  then show ?thesis unfolding s t using i by simp
qed

text \<open>How a line of a symbol table is decoded does not depend on the state.\<close>

lemma readSymtab_row_shape:
  "readSymtab_row G line = Next \<or> readSymtab_row G line = Break
   \<or> (\<exists>e. readSymtab_row G line = Fail e)
   \<or> (\<exists>secidx val n. readSymtab_row G line = admit_row G secidx val n)"
proof -
  let ?m = "FindStringSubmatch symre line"
  consider "HasPrefix line ''AUX ''" | "\<not> HasPrefix line ''AUX ''" "line = []"
    | "\<not> HasPrefix line ''AUX ''" "line \<noteq> []" "length ?m = 0"
    | "\<not> HasPrefix line ''AUX ''" "line \<noteq> []" "length ?m \<noteq> 0" "Sscanf_d (?m ! 1) = None"
    | secidx where "\<not> HasPrefix line ''AUX ''" "line \<noteq> []" "length ?m \<noteq> 0"
        "Sscanf_d (?m ! 1) = Some secidx" "Sscanf_0x_x (?m ! 2) = None"
    | secidx val where "\<not> HasPrefix line ''AUX ''" "line \<noteq> []" "length ?m \<noteq> 0"
        "Sscanf_d (?m ! 1) = Some secidx" "Sscanf_0x_x (?m ! 2) = Some val"
    by (cases "Sscanf_d (?m ! 1)"; cases "Sscanf_0x_x (?m ! 2)") auto
  then show ?thesis
  proof cases
    case 1
    then have "readSymtab_row G line = Next" by (simp add: fun_eq_iff readSymtab_row_def)
    then show ?thesis by simp
  next
    case 2
    then have "readSymtab_row G line = Break" by (simp add: fun_eq_iff readSymtab_row_def)
    then show ?thesis by simp
  next
    case 3
    then have "\<exists>e. readSymtab_row G line = Fail e"
      by (intro exI) (simp add: fun_eq_iff readSymtab_row_def)
    then show ?thesis by simp
  next
    case 4
    then have "\<exists>e. readSymtab_row G line = Fail e"
      by (intro exI) (simp add: fun_eq_iff readSymtab_row_def)
    then show ?thesis by simp
  next
    case 5
    then have "\<exists>e. readSymtab_row G line = Fail e"
      by (intro exI) (simp add: fun_eq_iff readSymtab_row_def)
    then show ?thesis by simp
  next
    case 6
    then have "readSymtab_row G line = admit_row G secidx val (?m ! 3)"
      by (simp add: fun_eq_iff readSymtab_row_def)
    then show ?thesis by blast
  qed
qed

lemma readSymtab_row_par:
  assumes "fst a = fst b \<and> flags_alike D1 D2 (snd a) (snd b)"
    and "\<not> is_Fail (readSymtab_row G line a)" and "\<not> is_Fail (readSymtab_row G line b)"
  shows "(fst (ctl_val (readSymtab_row G line a)) = fst (ctl_val (readSymtab_row G line b))
          \<and> flags_alike D1 D2 (snd (ctl_val (readSymtab_row G line a)))
              (snd (ctl_val (readSymtab_row G line b))))
         \<and> (is_Break (readSymtab_row G line a) \<longleftrightarrow> is_Break (readSymtab_row G line b))"
proof -
  obtain dl s where a: "a = (dl, s)" by (cases a)
  with assms(1) obtain t where b: "b = (dl, t)" and al: "flags_alike D1 D2 s t"
    by (cases b) auto
  from readSymtab_row_shape [of G line] show ?thesis
  proof (elim disjE exE)
    fix secidx val n
    assume r: "readSymtab_row G line = admit_row G secidx val n"
    from assms(2,3) show ?thesis
      unfolding r a b by (rule admit_row_par [OF al])
  qed (use assms in auto)
qed

lemma readSymtab_par:
  assumes "readSymtab G ls s = (None, r1, s')" and "readSymtab G ls t = (None, r2, t')"
    and al: "flags_alike D1 D2 s t"
  shows "r1 = r2 \<and> flags_alike D1 D2 s' t'"
proof -
  obtain e1 q1 dl1 s1 where 1: "scan_loop (readSymtab_row G) ls ([], s) = (e1, q1, dl1, s1)"
    using prod_cases4 by blast
  obtain e2 q2 dl2 t1 where 2: "scan_loop (readSymtab_row G) ls ([], t) = (e2, q2, dl2, t1)"
    using prod_cases4 by blast
  from assms(1) 1 have e1: "e1 = None" "r1 = q1" "s' = fold (sameobj_step dl1) dl1 s1"
    by (cases e1; simp add: readSymtab_def)+
  from assms(2) 2 have e2: "e2 = None" "r2 = q2" "t' = fold (sameobj_step dl2) dl2 t1"
    by (cases e2; simp add: readSymtab_def)+
  have "q1 = q2 \<and> (fst (dl1, s1) = fst (dl2, t1)
          \<and> flags_alike D1 D2 (snd (dl1, s1)) (snd (dl2, t1)))"
    using 1 [unfolded e1] 2 [unfolded e2]
  proof (rule scan_loop_par)
    show "fst ([], s) = fst ([], t) \<and> flags_alike D1 D2 (snd ([], s)) (snd ([], t))"
      using al by simp
  qed (rule readSymtab_row_par)
  then show ?thesis unfolding e1 e2 by (simp add: fold_sameobj_par)
qed

lemma readSections_row_break: "is_Break (readSections_row line s) \<longleftrightarrow> line = []"
  by (simp add: readSections_row_def Let_def split: option.splits)

lemma readSections_par:
  assumes "readSections ls s = (None, r1, s')" and "readSections ls t = (None, r2, t')"
    and al: "flags_alike D1 D2 s t"
  shows "r1 = r2 \<and> flags_alike D1 D2 s' t'"
  using assms unfolding readSections_def
  by (rule scan_loop_par) (auto simp: readSections_row_break elim: flags_alike_cong)

lemma readRelocations_row_break: "is_Break (readRelocations_row G line s) \<longleftrightarrow> line = []"
  by (simp add: readRelocations_row_def Let_def split: option.splits prod.splits)

lemma readRelocations_par:
  assumes "readRelocations G rline ls s = (None, r1, s')"
    and "readRelocations G rline ls t = (None, r2, t')"
    and al: "flags_alike D1 D2 s t"
  shows "r1 = r2 \<and> flags_alike D1 D2 s' t'"
proof (cases "length (FindStringSubmatch relsecre rline) = 0")
  case True
  with assms show ?thesis by (simp add: readRelocations_def)
next
  case False
  with assms(1) have 1: "scan_loop (readRelocations_row G) (drop 1 ls) s = (None, r1, s')"
    by (simp add: readRelocations_def)
  from False assms(2) have 2: "scan_loop (readRelocations_row G) (drop 1 ls) t = (None, r2, t')"
    by (simp add: readRelocations_def)
  from 1 2 al show ?thesis
    by (rule scan_loop_par) (auto simp: readRelocations_row_break elim: flags_alike_cong)
qed

lemma digest_line_stages:
  assumes "digest_line G line ls s = (None, r, s')"
  shows "\<exists>ls1 s1 ls2 s2.
    (if line = ''Sections:'' then readSections ls s else (None, ls, s)) = (None, ls1, s1)
    \<and> (if line = ''SYMBOL TABLE:'' then readSymtab G ls1 s1 else (None, ls1, s1)) = (None, ls2, s2)
    \<and> (if HasPrefix line ''RELOCATION RECORDS FOR [''
        then readRelocations G line ls2 s2 else (None, ls2, s2)) = (None, r, s')"
proof -
  obtain e1 ls1 s1 where 1:
    "(if line = ''Sections:'' then readSections ls s else (None, ls, s)) = (e1, ls1, s1)"
    using prod_cases3 by blast
  obtain e2 ls2 s2 where 2:
    "(if line = ''SYMBOL TABLE:'' then readSymtab G ls1 s1 else (None, ls1, s1)) = (e2, ls2, s2)"
    using prod_cases3 by blast
  from assms have e1: "e1 = None" unfolding digest_line_def 1 by (cases e1) auto
  from assms have e2: "e2 = None" unfolding digest_line_def 1 e1 using 2 by (cases e2) auto
  from assms have "(if HasPrefix line ''RELOCATION RECORDS FOR [''
        then readRelocations G line ls2 s2 else (None, ls2, s2)) = (None, r, s')"
    unfolding digest_line_def 1 e1 using 2 e2 by simp
  with 1 2 e1 e2 show ?thesis by blast
qed

lemma digest_line_par:
  assumes "digest_line G line ls s = (None, r1, s')"
    and "digest_line G line ls t = (None, r2, t')"
    and al: "flags_alike D1 D2 s t"
  shows "r1 = r2 \<and> flags_alike D1 D2 s' t'"
proof -
  from digest_line_stages [OF assms(1)] obtain ls1 s1 ls2 s2 where
    a1: "(if line = ''Sections:'' then readSections ls s else (None, ls, s)) = (None, ls1, s1)"
    and a2: "(if line = ''SYMBOL TABLE:'' then readSymtab G ls1 s1 else (None, ls1, s1))
              = (None, ls2, s2)"
    and a3: "(if HasPrefix line ''RELOCATION RECORDS FOR [''
               then readRelocations G line ls2 s2 else (None, ls2, s2)) = (None, r1, s')"
    by blast
  from digest_line_stages [OF assms(2)] obtain lt1 t1 lt2 t2 where
    b1: "(if line = ''Sections:'' then readSections ls t else (None, ls, t)) = (None, lt1, t1)"
    and b2: "(if line = ''SYMBOL TABLE:'' then readSymtab G lt1 t1 else (None, lt1, t1))
              = (None, lt2, t2)"
    and b3: "(if HasPrefix line ''RELOCATION RECORDS FOR [''
               then readRelocations G line lt2 t2 else (None, lt2, t2)) = (None, r2, t')"
    by blast
  have 1: "ls1 = lt1 \<and> flags_alike D1 D2 s1 t1"
  proof (cases "line = ''Sections:''")
    case True
    with a1 b1 have "readSections ls s = (None, ls1, s1)" "readSections ls t = (None, lt1, t1)"
      by simp_all
    then show ?thesis using al by (rule readSections_par)
  next
    case False
    with a1 b1 al show ?thesis by simp
  qed
  have 2: "ls2 = lt2 \<and> flags_alike D1 D2 s2 t2"
  proof (cases "line = ''SYMBOL TABLE:''")
    case True
    with a2 b2 1 have "readSymtab G ls1 s1 = (None, ls2, s2)"
      "readSymtab G ls1 t1 = (None, lt2, t2)" "flags_alike D1 D2 s1 t1"
      by simp_all
    then show ?thesis by (rule readSymtab_par)
  next
    case False
    with a2 b2 1 show ?thesis by simp
  qed
  show ?thesis
  proof (cases "HasPrefix line ''RELOCATION RECORDS FOR [''")
    case True
    with a3 b3 2 have "readRelocations G line ls2 s2 = (None, r1, s')"
      "readRelocations G line ls2 t2 = (None, r2, t')" "flags_alike D1 D2 s2 t2"
      by simp_all
    then show ?thesis by (rule readRelocations_par)
  next
    case False
    with a3 b3 2 show ?thesis by simp
  qed
qed

lemma digest_loop_par:
  assumes "digest_loop G ls s = (None, s')" and "digest_loop G ls t = (None, t')"
    and "flags_alike D1 D2 s t"
  shows "flags_alike D1 D2 s' t'"
  using assms
proof (induction G ls s arbitrary: t rule: digest_loop.induct)
  case (1 G s)
  then show ?case by simp
next
  case (2 G line rest s)
  obtain e1 r1 s1 where a: "digest_line G line rest s = (e1, r1, s1)"
    using prod_cases3 by blast
  obtain e2 r2 t1 where b: "digest_line G line rest t = (e2, r2, t1)"
    using prod_cases3 by blast
  from "2.prems"(1) a have e1: "e1 = None" by (cases e1) auto
  from "2.prems"(2) b have e2: "e2 = None" by (cases e2) auto
  have "r1 = r2 \<and> flags_alike D1 D2 s1 t1"
    using a [unfolded e1] b [unfolded e2] "2.prems"(3) by (rule digest_line_par)
  moreover have "digest_loop G r1 s1 = (None, s')"
    using "2.prems"(1) a e1 by simp
  moreover have "digest_loop G r2 t1 = (None, t')"
    using "2.prems"(2) b e2 by simp
  ultimately show ?case
    using "2.IH" [OF a [symmetric], of r1 s1 t1] e1 by simp
qed

lemma pass3_par:
  assumes "pass3 E G infile s = (None, s')" and "pass3 E G infile t = (None, t')"
    and al: "flags_alike D1 D2 s t"
  shows "flags_alike D1 D2 s' t'"
proof (cases "objdump_htr E infile")
  case (Inl err)
  with assms show ?thesis by (simp add: pass3_def)
next
  case (Inr out)
  obtain e1 s1 where a: "digest_loop G (ScanLines out) s = (e1, s1)" by fastforce
  obtain e2 t1 where b: "digest_loop G (ScanLines out) t = (e2, t1)" by fastforce
  from assms(1) Inr a have e1: "e1 = None" "s' = s1\<lparr>paths := paths s1 @ [pathinfo E infile]\<rparr>"
    by (cases e1; simp add: pass3_def digest_def)+
  from assms(2) Inr b have e2: "e2 = None" "t' = t1\<lparr>paths := paths t1 @ [pathinfo E infile]\<rparr>"
    by (cases e2; simp add: pass3_def digest_def)+
  from a [unfolded e1] b [unfolded e2] al have "flags_alike D1 D2 s1 t1"
    by (rule digest_loop_par)
  then show ?thesis unfolding e1 e2 by (rule flags_alike_cong) simp_all
qed

text \<open>The same for a relation that holds across \<open>readSymtab\<close> as a whole.\<close>

lemma pass3_rel_symtab:
  assumes refl: "\<And>s. R s s"
    and trans: "\<And>a b c. R a b \<Longrightarrow> R b c \<Longrightarrow> R a c"
    and sec: "\<And>line s. R s (ctl_val (readSections_row line s))"
    and sym: "\<And>ls s. R s (snd (snd (readSymtab G ls s)))"
    and rel: "\<And>line s. R s (ctl_val (readRelocations_row G line s))"
    and paths: "\<And>s p. R s (s\<lparr>paths := p\<rparr>)"
  shows "R s (snd (pass3 E G infile s))"
proof (cases "objdump_htr E infile")
  case (Inl err)
  then show ?thesis by (simp add: pass3_def refl)
next
  case (Inr out)
  have d: "R s (snd (digest_loop G (ScanLines out) s))"
    using refl trans sec sym rel by (rule digest_loop_rel)
  obtain e s1 where r: "digest_loop G (ScanLines out) s = (e, s1)" by fastforce
  have d': "R s s1" using d r by simp
  have "R s1 (s1\<lparr>paths := paths s1 @ [pathinfo E infile]\<rparr>)" by (rule paths)
  with d' have "R s (s1\<lparr>paths := paths s1 @ [pathinfo E infile]\<rparr>)" by (rule trans)
  with d' r Inr show ?thesis by (cases e) (simp_all add: pass3_def digest_def)
qed

lemma pass3_files_rel_symtab:
  assumes refl: "\<And>s. R s s"
    and trans: "\<And>a b c. R a b \<Longrightarrow> R b c \<Longrightarrow> R a c"
    and sec: "\<And>line s. R s (ctl_val (readSections_row line s))"
    and sym: "\<And>ls s. R s (snd (snd (readSymtab G ls s)))"
    and rel: "\<And>line s. R s (ctl_val (readRelocations_row G line s))"
    and paths: "\<And>s p. R s (s\<lparr>paths := p\<rparr>)"
    and idx: "\<And>s k. R s (s\<lparr>objidx := k\<rparr>)"
  shows "R s (snd (pass3_files E G k files s))"
proof (induction files arbitrary: k s)
  case Nil
  show ?case by (simp add: refl)
next
  case (Cons f files)
  obtain e s1 where r: "pass3 E G f (s\<lparr>objidx := k\<rparr>) = (e, s1)" by fastforce
  have "R (s\<lparr>objidx := k\<rparr>) s1"
    using pass3_rel_symtab [of R G "s\<lparr>objidx := k\<rparr>" E f, OF refl trans sec sym rel paths] r
    by simp
  with idx [of s k] have a: "R s s1" by (rule trans)
  show ?case
  proof (cases e)
    case None
    have "R s1 (snd (pass3_files E G (k + 1) files s1))" by (rule Cons)
    with a have "R s (snd (pass3_files E G (k + 1) files s1))" by (rule trans)
    with r None show ?thesis by simp
  next
    case (Some err)
    with a r show ?thesis by simp
  qed
qed

section \<open>An error in a round of a loop is the error of the run\<close>

lemma scan_loop_round:
  "(ls', a') \<in> set (scan_rounds body ls a) \<Longrightarrow> scan_loop body ls a = scan_loop body ls' a'"
proof (induction ls arbitrary: a)
  case Nil
  then show ?case by simp
next
  case (Cons line rest)
  show ?case
  proof (cases "(ls', a') = (line # rest, a)")
    case True
    then show ?thesis by simp
  next
    case False
    with Cons.prems obtain a1 where n: "body line a = Next a1"
      and m: "(ls', a') \<in> set (scan_rounds body rest a1)"
      by (cases "body line a") auto
    from Cons.IH [OF m] n show ?thesis by simp
  qed
qed

lemma scan_rounds_head: "(line # rest, a) \<in> set (scan_rounds body (line # rest) a)"
  by simp

lemma scan_rounds_next:
  "body line a = Next a1 \<Longrightarrow> c \<in> set (scan_rounds body rest a1) \<Longrightarrow>
     c \<in> set (scan_rounds body (line # rest) a)"
  by simp

lemma digest_loop_round:
  "(ls', s') \<in> set (digest_rounds G ls s) \<Longrightarrow> digest_loop G ls s = digest_loop G ls' s'"
proof (induction G ls s rule: digest_rounds.induct)
  case (1 G s)
  then show ?case by simp
next
  case (2 G line rest s)
  show ?case
  proof (cases "(ls', s') = (line # rest, s)")
    case True
    then show ?thesis by simp
  next
    case False
    obtain e r1 s1 where d: "digest_line G line rest s = (e, r1, s1)"
      using prod_cases3 by blast
    from "2.prems" False d have e: "e = None" by (cases e) auto
    from "2.prems" False d e have m: "(ls', s') \<in> set (digest_rounds G r1 s1)" by auto
    from "2.IH" [OF d [symmetric] e refl m] d e show ?thesis by simp
  qed
qed

lemma digest_rounds_head: "(line # rest, s) \<in> set (digest_rounds G (line # rest) s)"
  by simp

lemma digest_rounds_next:
  "digest_line G line rest s = (None, r1, s1) \<Longrightarrow> c \<in> set (digest_rounds G r1 s1) \<Longrightarrow>
     c \<in> set (digest_rounds G (line # rest) s)"
  by simp

text \<open>The states of the rounds are related to the state at the start by every relation that
  the steps keep.\<close>

lemma scan_rounds_rel:
  assumes refl: "\<And>a. R a a"
    and trans: "\<And>a b c. R a b \<Longrightarrow> R b c \<Longrightarrow> R a c"
    and step: "\<And>line a. R a (ctl_val (body line a))"
    and "(ls', a') \<in> set (scan_rounds body ls a)"
  shows "R a a'"
  using assms(4)
proof (induction ls arbitrary: a)
  case Nil
  then show ?case by simp
next
  case (Cons line rest)
  show ?case
  proof (cases "(ls', a') = (line # rest, a)")
    case True
    then show ?thesis by (simp add: refl)
  next
    case False
    with Cons.prems obtain a1 where n: "body line a = Next a1"
      and m: "(ls', a') \<in> set (scan_rounds body rest a1)"
      by (cases "body line a") auto
    from step [of a line] n have "R a a1" by simp
    then show ?thesis using Cons.IH [OF m] by (rule trans)
  qed
qed

lemma digest_rounds_rel:
  assumes refl: "\<And>s. R s s"
    and trans: "\<And>a b c. R a b \<Longrightarrow> R b c \<Longrightarrow> R a c"
    and sec: "\<And>line s. R s (ctl_val (readSections_row line s))"
    and sym: "\<And>ls s. R s (snd (snd (readSymtab G ls s)))"
    and rel: "\<And>line s. R s (ctl_val (readRelocations_row G line s))"
    and "(ls', s') \<in> set (digest_rounds G ls s)"
  shows "R s s'"
  using assms(6) sec sym rel
proof (induction G ls s rule: digest_rounds.induct)
  case (1 G s)
  then show ?case by simp
next
  case (2 G line rest s)
  note sec = "2.prems"(2) and sym = "2.prems"(3) and rel = "2.prems"(4)
  show ?case
  proof (cases "(ls', s') = (line # rest, s)")
    case True
    then show ?thesis by (simp add: refl)
  next
    case False
    obtain e r1 s1 where d: "digest_line G line rest s = (e, r1, s1)"
      using prod_cases3 by blast
    from "2.prems"(1) False d have e: "e = None" by (cases e) auto
    from "2.prems"(1) False d e have m: "(ls', s') \<in> set (digest_rounds G r1 s1)" by auto
    have "R s s1"
      using digest_line_rel [of R G s line rest, OF refl trans sec sym rel] d by simp
    moreover have "R s1 s'"
      using "2.IH" [OF d [symmetric] e HOL.refl m] sec sym rel by simp
    ultimately show ?thesis by (rule trans)
  qed
qed

lemma readSymtab_objidx: "objidx (snd (snd (readSymtab G ls s))) = objidx s"
proof -
  define R where "R = (\<lambda>(a :: state) (b :: state). objidx b = objidx a)"
  have "R s (snd (snd (readSymtab G ls s)))"
    by (rule readSymtab_rel) (auto simp: R_def)
  then show ?thesis by (simp add: R_def)
qed

lemma digest_rounds_objidx:
  "(ls', s') \<in> set (digest_rounds G ls s) \<Longrightarrow> objidx s' = objidx s"
proof -
  define R where "R = (\<lambda>(a :: state) (b :: state). objidx b = objidx a)"
  assume "(ls', s') \<in> set (digest_rounds G ls s)"
  then have "R s s'"
    by (rule digest_rounds_rel [rotated 5]) (auto simp: R_def readSymtab_objidx)
  then show ?thesis by (simp add: R_def)
qed

lemma relocation_rounds_objidx:
  "(ls', s') \<in> set (scan_rounds (readRelocations_row G) ls s) \<Longrightarrow> objidx s' = objidx s"
proof -
  define R where "R = (\<lambda>(a :: state) (b :: state). objidx b = objidx a)"
  assume "(ls', s') \<in> set (scan_rounds (readRelocations_row G) ls s)"
  then have "R s s'"
    by (rule scan_rounds_rel [rotated 3]) (auto simp: R_def)
  then show ?thesis by (simp add: R_def)
qed

lemma symtab_rounds_objidx:
  assumes "(ls', (dl', s')) \<in> set (scan_rounds (readSymtab_row G) ls (dl, s))"
  shows "objidx s' = objidx s"
proof -
  define R where
    "R = (\<lambda>(a :: string list \<times> state) (b :: string list \<times> state). objidx (snd b) = objidx (snd a))"
  have step: "R a (ctl_val (readSymtab_row G line a))" for line a
    by (cases a) (auto simp: R_def readSymtab_row_def Let_def split: option.splits)
  from assms have "R (dl, s) (dl', s')"
    by (rule scan_rounds_rel [rotated 3]) (auto simp: R_def step [unfolded R_def])
  then show ?thesis by (simp add: R_def)
qed

subsection \<open>From a round of \<open>digest\<close> to \<open>main\<close>\<close>

lemma pass3_files_append:
  "pass3_files E G k pre s = (None, s') \<Longrightarrow>
     pass3_files E G k (pre @ files) s = pass3_files E G (k + int (length pre)) files s'"
proof (induction pre arbitrary: k s)
  case Nil
  then show ?case by simp
next
  case (Cons f pre)
  obtain e s1 where p: "pass3 E G f (s\<lparr>objidx := k\<rparr>) = (e, s1)" by fastforce
  from Cons.prems p have e: "e = None" by (cases e) auto
  from Cons.prems p e have "pass3_files E G (k + 1) pre s1 = (None, s')" by simp
  from Cons.IH [OF this] have
    "pass3_files E G (k + 1) (pre @ files) s1
       = pass3_files E G (k + int (length (f # pre))) files s'"
    by (simp add: ac_simps)
  with p e show ?case by simp
qed

text \<open>The objects before \<open>f\<close> are read without an error, and a round of the loop of \<open>digest\<close>
  on the dump of \<open>f\<close> ends with the error \<open>e\<close>: then \<open>main\<close> ends with it, as \<open>fatal\<close> prints
  it, in the state the round leaves.\<close>

lemma main_digest_error:
  assumes "inputsflag \<noteq> []" and "Split inputsflag (CHR '','') = pre @ f # post"
    and G: "G = mkGlobals allsyms watchsymsflag"
    and p1: "pass1_files E G 0 (pre @ f # post) (newState (pre @ f # post)) = (None, s1)"
    and p3: "pass3_files E G 0 pre (pass2 s1) = (None, s2)"
    and dump: "objdump_htr E f = Inr out"
    and round: "(line # ls, s3) \<in> set (digest_rounds G (ScanLines out) (s2\<lparr>objidx := int (length pre)\<rparr>))"
    and err: "digest_line G line ls s3 = (Some e, ls', s)"
  shows "main E inputsflag allsyms watchsymsflag = (Some (fatal_reading f e), s)"
proof -
  have "digest_loop G (ScanLines out) (s2\<lparr>objidx := int (length pre)\<rparr>)
        = digest_loop G (line # ls) s3"
    using round by (rule digest_loop_round)
  also have "\<dots> = (Some e, s)" using err by simp
  finally have "pass3 E G f (s2\<lparr>objidx := int (length pre)\<rparr>) = (Some e, s)"
    using dump by (simp add: pass3_def digest_def)
  then have "pass3_files E G (0 + int (length pre)) (f # post) s2 = (Some (fatal_reading f e), s)"
    by simp
  then have "pass3_files E G 0 (pre @ f # post) (pass2 s1) = (Some (fatal_reading f e), s)"
    using pass3_files_append [OF p3, of "f # post"] by simp
  then have "passes E G (pre @ f # post) = (Some (fatal_reading f e), s)"
    using p1 by (simp add: passes_def Let_def)
  then show ?thesis using assms(1,2) G by (simp add: main_def)
qed

lemma main_round_objidx:
  assumes "pass3_files E G 0 pre s0 = (None, s2)"
    and "(ls, s3) \<in> set (digest_rounds G out (s2\<lparr>objidx := k\<rparr>))"
  shows "objidx s3 = k"
  using digest_rounds_objidx [OF assms(2)] by simp

section \<open>Evaluating the library functions on the concrete inputs\<close>

lemma Split_nonempty [simp]: "Split s sep \<noteq> []"
  by (induction s) (auto split: list.splits)

lemma Split_no_sep: "sep \<notin> set l \<Longrightarrow> Split (l @ sep # cs) sep = l # Split cs sep"
  by (induction l) (auto split: list.splits)

lemma Split_unlines:
  "\<forall>l\<in>set ls. CHR 0x0A \<notin> set l \<Longrightarrow> Split (unlines ls) (CHR 0x0A) = ls @ [[]]"
  by (induction ls) (auto simp: unlines_def Split_no_sep)

lemma ScanLines_unlines:
  assumes "\<forall>l\<in>set ls. CHR 0x0A \<notin> set l \<and> (l = [] \<or> last l \<noteq> CHR 0x0D) \<and> length l < 1000"
  shows "ScanLines (unlines ls) = ls"
proof -
  have a: "Split (unlines ls) (CHR 0x0A) = ls @ [[]]"
    using assms by (simp add: Split_unlines)
  have b: "takeWhile (\<lambda>l. int (length l) < MaxScanTokenSize) ls = ls"
    using assms by (auto simp: MaxScanTokenSize_def takeWhile_eq_all_conv)
  have c: "map dropCR ls = ls"
    using assms by (intro map_idI) (auto simp: dropCR_def)
  show ?thesis by (simp add: ScanLines_def a b c)
qed

lemma decode_nested:
  "FindStringSubmatch symre
     ''[ 0](sec  0)(fl 0x00)(ty   0)(scl   2) (nx 0) 0x00000000 __imp___imp_foo'' =
   [''[ 0](sec  0)(fl 0x00)(ty   0)(scl   2) (nx 0) 0x00000000 __imp___imp_foo'',
    ''0'', ''0x00000000'', ''__imp___imp_foo'']"
  by code_simp

lemma ScanLines_nested: "ScanLines (unlines symtab_nested) = symtab_nested"
  by (rule ScanLines_unlines) (simp add: symtab_nested_def)

lemma pass1_nested:
  "pass1_files env_nested (mkGlobals False []) 0 [''n.o''] (newState [''n.o'']) =
     (None, (newState [''n.o''])\<lparr>all_syms := [''__imp___imp_foo'']\<rparr>)"
  by (simp add: pass1_def env_nested_def ScanLines_nested)
     (simp add: symtab_nested_def pass1_symtab_def decode_nested isInterestingSym_def
        HasPrefix_def insert_key_def newState_def)

lemma decode_symre_1:
  "FindStringSubmatch symre
     ''[ 0](sec  1)(fl 0x00)(ty   0)(scl   3) (nx 1) 0x00000000 .text'' =
   [''[ 0](sec  1)(fl 0x00)(ty   0)(scl   3) (nx 1) 0x00000000 .text'', ''1'', ''0x00000000'', ''.text'']"
  by code_simp

lemma decode_symre_2:
  "FindStringSubmatch symre
     ''[ 2](sec  2)(fl 0x00)(ty   0)(scl   2) (nx 0) 0x00000000 __imp_foo'' =
   [''[ 2](sec  2)(fl 0x00)(ty   0)(scl   2) (nx 0) 0x00000000 __imp_foo'', ''2'', ''0x00000000'', ''__imp_foo'']"
  by code_simp

lemma decode_symre_3:
  "FindStringSubmatch symre
     ''[ 3](sec  0)(fl 0x00)(ty  20)(scl   2) (nx 0) 0x00000000 foo'' =
   [''[ 3](sec  0)(fl 0x00)(ty  20)(scl   2) (nx 0) 0x00000000 foo'', ''0'', ''0x00000000'', ''foo'']"
  by code_simp

lemma decode_symre_4:
  "FindStringSubmatch symre
     ''[ 4](sec  0)(fl 0x00)(ty   0)(scl   2) (nx 0) 0x00000000 __imp_baz'' =
   [''[ 4](sec  0)(fl 0x00)(ty   0)(scl   2) (nx 0) 0x00000000 __imp_baz'', ''0'', ''0x00000000'', ''__imp_baz'']"
  by code_simp

lemma decode_symre_5:
  "FindStringSubmatch symre
     ''[ 5](sec  0)(fl 0x00)(ty   0)(scl   2) (nx 0) 0x00000000 __imp_baz'' =
   [''[ 5](sec  0)(fl 0x00)(ty   0)(scl   2) (nx 0) 0x00000000 __imp_baz'', ''0'', ''0x00000000'', ''__imp_baz'']"
  by code_simp

lemma decode_secre_1:
  "FindStringSubmatch secre
     ''  0 .text         00000037 0000000000000000 TEXT'' =
   [''  0 .text         00000037 0000000000000000 TEXT'', ''0'', ''.text'', ''00000037'']"
  by code_simp

lemma decode_secre_2:
  "FindStringSubmatch secre
     ''  1 .data         00000000 0000000000000000 DATA'' =
   [''  1 .data         00000000 0000000000000000 DATA'', ''1'', ''.data'', ''00000000'']"
  by code_simp

lemma decode_relre_1:
  "FindStringSubmatch relre
     ''0000000000000007 IMAGE_REL_AMD64_REL32    foo'' =
   [''0000000000000007 IMAGE_REL_AMD64_REL32    foo'', ''0000000000000007'', ''IMAGE_REL_AMD64_REL32'', ''foo'']"
  by code_simp

lemma decode_relre_2:
  "FindStringSubmatch relre
     ''000000000000000e IMAGE_REL_AMD64_REL32    __imp_baz'' =
   [''000000000000000e IMAGE_REL_AMD64_REL32    __imp_baz'', ''000000000000000e'', ''IMAGE_REL_AMD64_REL32'', ''__imp_baz'']"
  by code_simp

lemma decode_relre_3:
  "FindStringSubmatch relre
     ''000000000000001b IMAGE_REL_AMD64_REL32    __imp_baz'' =
   [''000000000000001b IMAGE_REL_AMD64_REL32    __imp_baz'', ''000000000000001b'', ''IMAGE_REL_AMD64_REL32'', ''__imp_baz'']"
  by code_simp

lemma decode_relre_4:
  "FindStringSubmatch relre
     ''0000000000000020 IMAGE_REL_AMD64_REL32    printf'' =
   [''0000000000000020 IMAGE_REL_AMD64_REL32    printf'', ''0000000000000020'', ''IMAGE_REL_AMD64_REL32'', ''printf'']"
  by code_simp

lemma decode_relre_5:
  "FindStringSubmatch relre
     ''000000000000002c IMAGE_REL_AMD64_REL32    __imp_baz'' =
   [''000000000000002c IMAGE_REL_AMD64_REL32    __imp_baz'', ''000000000000002c'', ''IMAGE_REL_AMD64_REL32'', ''__imp_baz'']"
  by code_simp

lemma decode_symre_6:
  "FindStringSubmatch symre
     ''[ 0](sec  1)(fl 0x00)(ty  20)(scl   2) (nx 0) 0x00000010 foo'' =
   [''[ 0](sec  1)(fl 0x00)(ty  20)(scl   2) (nx 0) 0x00000010 foo'', ''1'', ''0x00000010'', ''foo'']"
  by code_simp

lemma decode_symre_7:
  "FindStringSubmatch symre
     ''[ 1](sec  2)(fl 0x00)(ty   0)(scl   2) (nx 0) 0x00000000 __imp_bar'' =
   [''[ 1](sec  2)(fl 0x00)(ty   0)(scl   2) (nx 0) 0x00000000 __imp_bar'', ''2'', ''0x00000000'', ''__imp_bar'']"
  by code_simp

lemma decode_symre_8:
  "FindStringSubmatch symre
     ''[ 2](sec  1)(fl 0x00)(ty  20)(scl   2) (nx 0) 0x00000020 bar'' =
   [''[ 2](sec  1)(fl 0x00)(ty  20)(scl   2) (nx 0) 0x00000020 bar'', ''1'', ''0x00000020'', ''bar'']"
  by code_simp

lemma decode_secre_3:
  "FindStringSubmatch secre
     ''  0 .text         00000020 0000000000000000 TEXT'' =
   [''  0 .text         00000020 0000000000000000 TEXT'', ''0'', ''.text'', ''00000020'']"
  by code_simp

lemma decode_relre_6:
  "FindStringSubmatch relre
     ''0000000000000004 IMAGE_REL_AMD64_REL32    bar'' =
   [''0000000000000004 IMAGE_REL_AMD64_REL32    bar'', ''0000000000000004'', ''IMAGE_REL_AMD64_REL32'', ''bar'']"
  by code_simp

lemma decode_relsecre_1:
  "FindStringSubmatch relsecre
     ''RELOCATION RECORDS FOR [.text]:'' =
   [''RELOCATION RECORDS FOR [.text]:'', ''.text'']"
  by code_simp

lemma scan_1: "Sscanf_0x_x ''0x00000000'' = Some 0"
  by code_simp

lemma scan_2: "Sscanf_0x_x ''0x00000010'' = Some 16"
  by code_simp

lemma scan_3: "Sscanf_0x_x ''0x00000020'' = Some 32"
  by code_simp

lemma scan_4: "Sscanf_d ''0'' = Some 0"
  by code_simp

lemma scan_5: "Sscanf_d ''1'' = Some 1"
  by code_simp

lemma scan_6: "Sscanf_d ''2'' = Some 2"
  by code_simp

lemma scan_7: "Sscanf_x ''00000000'' = Some 0"
  by code_simp

lemma scan_8: "Sscanf_x ''0000000000000004'' = Some 4"
  by code_simp

lemma scan_9: "Sscanf_x ''0000000000000007'' = Some 7"
  by code_simp

lemma scan_10: "Sscanf_x ''000000000000000e'' = Some 14"
  by code_simp

lemma scan_11: "Sscanf_x ''000000000000001b'' = Some 27"
  by code_simp

lemma scan_12: "Sscanf_x ''0000000000000020'' = Some 32"
  by code_simp

lemma scan_13: "Sscanf_x ''000000000000002c'' = Some 44"
  by code_simp

lemma scan_14: "Sscanf_x ''00000020'' = Some 32"
  by code_simp

lemma scan_15: "Sscanf_x ''00000037'' = Some 55"
  by code_simp

lemmas decodes = decode_symre_1 decode_symre_2 decode_symre_3 decode_symre_4 decode_symre_5 decode_secre_1 decode_secre_2 decode_relre_1 decode_relre_2 decode_relre_3 decode_relre_4 decode_relre_5 decode_symre_6 decode_symre_7 decode_symre_8 decode_secre_3 decode_relre_6 decode_relsecre_1
  scan_1 scan_2 scan_3 scan_4 scan_5 scan_6 scan_7 scan_8 scan_9 scan_10 scan_11 scan_12 scan_13 scan_14 scan_15

lemma ScanLines_dumps:
  "ScanLines (unlines dump_t_a) = dump_t_a" "ScanLines (unlines dump_htr_a) = dump_htr_a"
  "ScanLines (unlines dump_t_b) = dump_t_b" "ScanLines (unlines dump_htr_b) = dump_htr_b"
  by (rule ScanLines_unlines,
      simp add: dump_t_a_def dump_htr_a_def dump_t_b_def dump_htr_b_def
        symtab_a_def symtab_b_def relocs_a_def relocs_b_def)+

lemma pass1_env_ab:
  "pass1 env_ab G ''a.o'' s = pass1_scan G dump_t_a s"
  "pass1 env_ab G ''b.o'' s = pass1_scan G dump_t_b s"
  by (simp_all add: pass1_def env_ab_def ScanLines_dumps)

lemma pathinfo_env_ab:
  "pathinfo env_ab ''a.o'' = ''/src/a.c''" "pathinfo env_ab ''b.o'' = []"
  by (simp_all add: pathinfo_def env_ab_def HasSuffix_def HasPrefix_def unlines_def)

lemma pass3_env_ab:
  "pass3 env_ab G ''a.o'' s =
     (case digest_loop G dump_htr_a s of
        (Some e, s1) \<Rightarrow> (Some e, s1)
      | (None, s1) \<Rightarrow> (None, s1\<lparr>paths := paths s1 @ [''/src/a.c'']\<rparr>))"
  "pass3 env_ab G ''b.o'' s =
     (case digest_loop G dump_htr_b s of
        (Some e, s1) \<Rightarrow> (Some e, s1)
      | (None, s1) \<Rightarrow> (None, s1\<lparr>paths := paths s1 @ [[]]\<rparr>))"
  unfolding pass3_def pathinfo_env_ab
  by (simp_all add: digest_def env_ab_def ScanLines_dumps)

lemmas run_simps = passes_def newState_def pass1_env_ab pass3_env_ab
  pass1_symtab_def decodes isInterestingSym_def HasPrefix_def insert_key_def mkGlobals_def
  mkWatched_def get_bool_def pass2_def imppref_def digest_line_def
  readSections_def readSections_row_def readSymtab_def readSymtab_row_def admit_row_def
  maskAddDef_def maskAddRef_def get_mask_def sameobj_step_def readRelocations_def
  readRelocations_row_def walk_refs.simps Let_def
  defbase_def refbase_def defimp_def refimp_def dsameobj_def
  dump_t_a_def dump_t_b_def dump_htr_a_def dump_htr_b_def
  symtab_a_def symtab_b_def relocs_a_def relocs_b_def

subsection \<open>The objects \<open>c.o\<close> and \<open>d.o\<close>\<close>

lemma ScanLines_dumps_cd:
  "ScanLines (unlines dump_t_c) = dump_t_c" "ScanLines (unlines dump_htr_c) = dump_htr_c"
  "ScanLines (unlines dump_d) = dump_d"
  by (rule ScanLines_unlines, simp add: dump_t_c_def dump_htr_c_def dump_d_def)+

lemma pass1_env_cd:
  "pass1 env_cd G ''a.o'' s = pass1_scan G dump_t_a s"
  "pass1 env_cd G ''b.o'' s = pass1_scan G dump_t_b s"
  "pass1 env_cd G ''c.o'' s = pass1_scan G dump_t_c s"
  "pass1 env_cd G ''d.o'' s = pass1_scan G dump_d s"
  by (simp_all add: pass1_def env_cd_def env_ab_def ScanLines_dumps ScanLines_dumps_cd)

lemma pathinfo_env_cd:
  "pathinfo env_cd ''a.o'' = ''/src/a.c''" "pathinfo env_cd ''b.o'' = []"
  "pathinfo env_cd ''c.o'' = []" "pathinfo env_cd ''d.o'' = []"
  by (simp_all add: pathinfo_def env_cd_def env_ab_def HasSuffix_def HasPrefix_def unlines_def)

lemma pass3_env_cd:
  "pass3 env_cd G ''a.o'' s =
     (case digest_loop G dump_htr_a s of
        (Some e, s1) \<Rightarrow> (Some e, s1)
      | (None, s1) \<Rightarrow> (None, s1\<lparr>paths := paths s1 @ [''/src/a.c'']\<rparr>))"
  "pass3 env_cd G ''b.o'' s =
     (case digest_loop G dump_htr_b s of
        (Some e, s1) \<Rightarrow> (Some e, s1)
      | (None, s1) \<Rightarrow> (None, s1\<lparr>paths := paths s1 @ [[]]\<rparr>))"
  unfolding pass3_def pathinfo_env_cd
  by (simp_all add: digest_def env_cd_def env_ab_def ScanLines_dumps)

lemmas run_simps_cd = pass1_env_cd pass3_env_cd dump_t_c_def dump_htr_c_def dump_d_def run_simps

section \<open>The runs on the two objects, in both orders\<close>

lemma pass1_ab:
  "pass1_files env_ab (mkGlobals False []) 0 [''a.o'', ''b.o''] (newState [''a.o'', ''b.o'']) =
  (None,
   \<lparr>objs = [''a.o'', ''b.o''], paths = [], sects = [], secmap = \<lambda>x. None,
      defs = \<lambda>x. None, refs = \<lambda>x. None,
      all_syms = [''__imp_foo'', ''__imp_baz'', ''__imp_bar''],
      defref = \<lambda>x. None, objidx = 1\<rparr>)"
  by (simp add: run_simps)

lemma state_a_symtab_eval:
  "state_a_symtab =
  \<lparr>objs = [''a.o'', ''b.o''], paths = [], sects = [], secmap = \<lambda>x. None,
     defs =
       [''__imp_foo'' \<mapsto> \<lparr>def_objidx = 0, def_secidx = 2, def_value = 0\<rparr>],
     refs =
       [''__imp_foo'' \<mapsto>
        [\<lparr>ref_objidx = 0, ref_secidx = 2, offsets = [], ref_def = True\<rparr>],
        ''foo'' \<mapsto>
        [\<lparr>ref_objidx = 0, ref_secidx = 0, offsets = [], ref_def = False\<rparr>],
        ''__imp_baz'' \<mapsto>
        [\<lparr>ref_objidx = 0, ref_secidx = 0, offsets = [], ref_def = False\<rparr>,
         \<lparr>ref_objidx = 0, ref_secidx = 0, offsets = [],
            ref_def = False\<rparr>]],
     all_syms =
       [''__imp_foo'', ''__imp_baz'', ''__imp_bar'', ''foo'', ''baz'',
        ''bar''],
     defref = [''foo'' \<mapsto> 12, ''baz'' \<mapsto> 16], objidx = 0\<rparr>"
  unfolding state_a_symtab_def pass1_ab by (simp add: run_simps)

lemma relocs_a_eval:
  "readRelocations (mkGlobals False []) ''RELOCATION RECORDS FOR [.text]:'' relocs_a state_a_symtab =
  (None, [],
   \<lparr>objs = [''a.o'', ''b.o''], paths = [], sects = [], secmap = \<lambda>x. None,
      defs =
        [''__imp_foo'' \<mapsto> \<lparr>def_objidx = 0, def_secidx = 2, def_value = 0\<rparr>],
      refs =
        [''__imp_foo'' \<mapsto>
         [\<lparr>ref_objidx = 0, ref_secidx = 2, offsets = [], ref_def = True\<rparr>],
         ''foo'' \<mapsto>
         [\<lparr>ref_objidx = 0, ref_secidx = 0, offsets = [7],
             ref_def = False\<rparr>],
         ''__imp_baz'' \<mapsto>
         [\<lparr>ref_objidx = 0, ref_secidx = 0, offsets = [14, 27, 44],
             ref_def = False\<rparr>,
          \<lparr>ref_objidx = 0, ref_secidx = 0, offsets = [14, 27, 44],
             ref_def = False\<rparr>]],
      all_syms =
        [''__imp_foo'', ''__imp_baz'', ''__imp_bar'', ''foo'', ''baz'',
         ''bar''],
      defref = [''foo'' \<mapsto> 12, ''baz'' \<mapsto> 16], objidx = 0\<rparr>)"
  unfolding state_a_symtab_eval by (simp add: run_simps)

lemma run_ab:
  "passes env_ab (mkGlobals False []) [''a.o'', ''b.o''] =
  (None,
   \<lparr>objs = [''a.o'', ''b.o''], paths = [''/src/a.c'', []],
      sects =
        [\<lparr>sec_objidx = 0, sec_name = ''.text'', sec_size = 55,
            sec_idx = 0\<rparr>,
         \<lparr>sec_objidx = 0, sec_name = ''.data'', sec_size = 0,
            sec_idx = 1\<rparr>,
         \<lparr>sec_objidx = 1, sec_name = ''.text'', sec_size = 32,
            sec_idx = 0\<rparr>],
      secmap = [''.data'' \<mapsto> 1, ''.text'' \<mapsto> 2],
      defs =
        [''__imp_foo'' \<mapsto> \<lparr>def_objidx = 0, def_secidx = 2, def_value = 0\<rparr>,
         ''foo'' \<mapsto> \<lparr>def_objidx = 1, def_secidx = 1, def_value = 16\<rparr>,
         ''__imp_bar'' \<mapsto> \<lparr>def_objidx = 1, def_secidx = 2, def_value = 0\<rparr>,
         ''bar'' \<mapsto> \<lparr>def_objidx = 1, def_secidx = 1, def_value = 32\<rparr>],
      refs =
        [''__imp_foo'' \<mapsto>
         [\<lparr>ref_objidx = 0, ref_secidx = 2, offsets = [], ref_def = True\<rparr>],
         ''__imp_baz'' \<mapsto>
         [\<lparr>ref_objidx = 0, ref_secidx = 0, offsets = [14, 27, 44],
             ref_def = False\<rparr>,
          \<lparr>ref_objidx = 0, ref_secidx = 0, offsets = [14, 27, 44],
             ref_def = False\<rparr>],
         ''foo'' \<mapsto>
         [\<lparr>ref_objidx = 0, ref_secidx = 0, offsets = [7],
             ref_def = False\<rparr>,
          \<lparr>ref_objidx = 1, ref_secidx = 1, offsets = [], ref_def = True\<rparr>],
         ''__imp_bar'' \<mapsto>
         [\<lparr>ref_objidx = 1, ref_secidx = 2, offsets = [], ref_def = True\<rparr>],
         ''bar'' \<mapsto>
         [\<lparr>ref_objidx = 1, ref_secidx = 1, offsets = [4],
             ref_def = True\<rparr>]],
      all_syms =
        [''__imp_foo'', ''__imp_baz'', ''__imp_bar'', ''foo'', ''baz'',
         ''bar''],
      defref = [''baz'' \<mapsto> 16, ''foo'' \<mapsto> 14, ''bar'' \<mapsto> 42], objidx = 1\<rparr>)"
  by (simp add: run_simps)

lemma run_ba:
  "passes env_ab (mkGlobals False []) [''b.o'', ''a.o''] =
  (None,
   \<lparr>objs = [''b.o'', ''a.o''], paths = [[], ''/src/a.c''],
      sects =
        [\<lparr>sec_objidx = 0, sec_name = ''.text'', sec_size = 32,
            sec_idx = 0\<rparr>,
         \<lparr>sec_objidx = 1, sec_name = ''.text'', sec_size = 55,
            sec_idx = 0\<rparr>,
         \<lparr>sec_objidx = 1, sec_name = ''.data'', sec_size = 0,
            sec_idx = 1\<rparr>],
      secmap = [''.text'' \<mapsto> 1, ''.data'' \<mapsto> 2],
      defs =
        [''foo'' \<mapsto> \<lparr>def_objidx = 0, def_secidx = 1, def_value = 16\<rparr>,
         ''__imp_bar'' \<mapsto> \<lparr>def_objidx = 0, def_secidx = 2, def_value = 0\<rparr>,
         ''bar'' \<mapsto> \<lparr>def_objidx = 0, def_secidx = 1, def_value = 32\<rparr>,
         ''__imp_foo'' \<mapsto> \<lparr>def_objidx = 1, def_secidx = 2, def_value = 0\<rparr>],
      refs =
        [''__imp_bar'' \<mapsto>
         [\<lparr>ref_objidx = 0, ref_secidx = 2, offsets = [], ref_def = True\<rparr>],
         ''bar'' \<mapsto>
         [\<lparr>ref_objidx = 0, ref_secidx = 1, offsets = [4],
             ref_def = True\<rparr>],
         ''__imp_foo'' \<mapsto>
         [\<lparr>ref_objidx = 1, ref_secidx = 2, offsets = [], ref_def = True\<rparr>],
         ''foo'' \<mapsto>
         [\<lparr>ref_objidx = 0, ref_secidx = 1, offsets = [], ref_def = True\<rparr>,
          \<lparr>ref_objidx = 1, ref_secidx = 0, offsets = [7],
             ref_def = False\<rparr>],
         ''__imp_baz'' \<mapsto>
         [\<lparr>ref_objidx = 1, ref_secidx = 0, offsets = [14, 27, 44],
             ref_def = False\<rparr>,
          \<lparr>ref_objidx = 1, ref_secidx = 0, offsets = [14, 27, 44],
             ref_def = False\<rparr>]],
      all_syms =
        [''__imp_bar'', ''__imp_foo'', ''__imp_baz'', ''bar'', ''foo'',
         ''baz''],
      defref = [''bar'' \<mapsto> 42, ''foo'' \<mapsto> 14, ''baz'' \<mapsto> 16], objidx = 1\<rparr>)"
  by (simp add: run_simps)

section \<open>The runs that end with an error\<close>

lemma pass1_ac:
  "pass1_files env_cd (mkGlobals False []) 0 [''a.o'', ''c.o''] (newState [''a.o'', ''c.o'']) =
  (None,
   \<lparr>objs = [''a.o'', ''c.o''], paths = [], sects = [], secmap = \<lambda>x. None,
      defs = \<lambda>x. None, refs = \<lambda>x. None,
      all_syms = [''__imp_foo'', ''__imp_baz''], defref = \<lambda>x. None,
      objidx = 1\<rparr>)"
  by (simp add: run_simps_cd)

lemma pass1_bd:
  "pass1_files env_cd (mkGlobals False []) 0 [''b.o'', ''d.o''] (newState [''b.o'', ''d.o'']) =
  (None,
   \<lparr>objs = [''b.o'', ''d.o''], paths = [], sects = [], secmap = \<lambda>x. None,
      defs = \<lambda>x. None, refs = \<lambda>x. None, all_syms = [''__imp_bar''],
      defref = \<lambda>x. None, objidx = 1\<rparr>)"
  by (simp add: run_simps_cd)

lemma pass3_a_done:
  "pass3_files env_cd (mkGlobals False []) 0 [''a.o'']
     (pass2 (snd (pass1_files env_cd (mkGlobals False []) 0 [''a.o'', ''c.o''] (newState [''a.o'', ''c.o''])))) =
  (None,
   \<lparr>objs = [''a.o'', ''c.o''], paths = [''/src/a.c''],
      sects =
        [\<lparr>sec_objidx = 0, sec_name = ''.text'', sec_size = 55,
            sec_idx = 0\<rparr>,
         \<lparr>sec_objidx = 0, sec_name = ''.data'', sec_size = 0,
            sec_idx = 1\<rparr>],
      secmap = [''.text'' \<mapsto> 0, ''.data'' \<mapsto> 1],
      defs =
        [''__imp_foo'' \<mapsto> \<lparr>def_objidx = 0, def_secidx = 2, def_value = 0\<rparr>],
      refs =
        [''__imp_foo'' \<mapsto>
         [\<lparr>ref_objidx = 0, ref_secidx = 2, offsets = [], ref_def = True\<rparr>],
         ''foo'' \<mapsto>
         [\<lparr>ref_objidx = 0, ref_secidx = 0, offsets = [7],
             ref_def = False\<rparr>],
         ''__imp_baz'' \<mapsto>
         [\<lparr>ref_objidx = 0, ref_secidx = 0, offsets = [14, 27, 44],
             ref_def = False\<rparr>,
          \<lparr>ref_objidx = 0, ref_secidx = 0, offsets = [14, 27, 44],
             ref_def = False\<rparr>]],
      all_syms = [''__imp_foo'', ''__imp_baz'', ''foo'', ''baz''],
      defref = [''foo'' \<mapsto> 12, ''baz'' \<mapsto> 16], objidx = 0\<rparr>)"
  unfolding pass1_ac by (simp add: run_simps_cd)

lemma pass3_b_done:
  "pass3_files env_cd (mkGlobals False []) 0 [''b.o'']
     (pass2 (snd (pass1_files env_cd (mkGlobals False []) 0 [''b.o'', ''d.o''] (newState [''b.o'', ''d.o''])))) =
  (None,
   \<lparr>objs = [''b.o'', ''d.o''], paths = [[]],
      sects =
        [\<lparr>sec_objidx = 0, sec_name = ''.text'', sec_size = 32,
            sec_idx = 0\<rparr>],
      secmap = [''.text'' \<mapsto> 0],
      defs =
        [''__imp_bar'' \<mapsto> \<lparr>def_objidx = 0, def_secidx = 2, def_value = 0\<rparr>,
         ''bar'' \<mapsto> \<lparr>def_objidx = 0, def_secidx = 1, def_value = 32\<rparr>],
      refs =
        [''__imp_bar'' \<mapsto>
         [\<lparr>ref_objidx = 0, ref_secidx = 2, offsets = [], ref_def = True\<rparr>],
         ''bar'' \<mapsto>
         [\<lparr>ref_objidx = 0, ref_secidx = 1, offsets = [4],
             ref_def = True\<rparr>]],
      all_syms = [''__imp_bar'', ''bar''], defref = [''bar'' \<mapsto> 42],
      objidx = 0\<rparr>)"
  unfolding pass1_bd by (simp add: run_simps_cd)

lemma state_a_done_eval:
  "state_a_done =
   \<lparr>objs = [''a.o'', ''c.o''], paths = [''/src/a.c''],
      sects =
        [\<lparr>sec_objidx = 0, sec_name = ''.text'', sec_size = 55,
            sec_idx = 0\<rparr>,
         \<lparr>sec_objidx = 0, sec_name = ''.data'', sec_size = 0,
            sec_idx = 1\<rparr>],
      secmap = [''.text'' \<mapsto> 0, ''.data'' \<mapsto> 1],
      defs =
        [''__imp_foo'' \<mapsto> \<lparr>def_objidx = 0, def_secidx = 2, def_value = 0\<rparr>],
      refs =
        [''__imp_foo'' \<mapsto>
         [\<lparr>ref_objidx = 0, ref_secidx = 2, offsets = [], ref_def = True\<rparr>],
         ''foo'' \<mapsto>
         [\<lparr>ref_objidx = 0, ref_secidx = 0, offsets = [7],
             ref_def = False\<rparr>],
         ''__imp_baz'' \<mapsto>
         [\<lparr>ref_objidx = 0, ref_secidx = 0, offsets = [14, 27, 44],
             ref_def = False\<rparr>,
          \<lparr>ref_objidx = 0, ref_secidx = 0, offsets = [14, 27, 44],
             ref_def = False\<rparr>]],
      all_syms = [''__imp_foo'', ''__imp_baz'', ''foo'', ''baz''],
      defref = [''foo'' \<mapsto> 12, ''baz'' \<mapsto> 16], objidx = 0\<rparr>"
  unfolding state_a_done_def pass3_a_done by simp

lemma state_b_done_eval:
  "state_b_done =
   \<lparr>objs = [''b.o'', ''d.o''], paths = [[]],
      sects =
        [\<lparr>sec_objidx = 0, sec_name = ''.text'', sec_size = 32,
            sec_idx = 0\<rparr>],
      secmap = [''.text'' \<mapsto> 0],
      defs =
        [''__imp_bar'' \<mapsto> \<lparr>def_objidx = 0, def_secidx = 2, def_value = 0\<rparr>,
         ''bar'' \<mapsto> \<lparr>def_objidx = 0, def_secidx = 1, def_value = 32\<rparr>],
      refs =
        [''__imp_bar'' \<mapsto>
         [\<lparr>ref_objidx = 0, ref_secidx = 2, offsets = [], ref_def = True\<rparr>],
         ''bar'' \<mapsto>
         [\<lparr>ref_objidx = 0, ref_secidx = 1, offsets = [4],
             ref_def = True\<rparr>]],
      all_syms = [''__imp_bar'', ''bar''], defref = [''bar'' \<mapsto> 42],
      objidx = 0\<rparr>"
  unfolding state_b_done_def pass3_b_done by simp

text \<open>The rounds of \<open>digest\<close> on the dumps of \<open>c.o\<close> and \<open>d.o\<close>: the lines before the block
  change nothing.\<close>

lemma digest_rounds_c:
  "(''RELOCATION RECORDS FOR [.text]:'' #
      [''OFFSET           TYPE                     VALUE'',
       ''000000000000000e IMAGE_REL_AMD64_REL32    __imp_baz'', ''''], s)
     \<in> set (digest_rounds G dump_htr_c s)"
  unfolding dump_htr_c_def dump_t_c_def append.simps
  apply (rule digest_rounds_next, simp add: digest_line_def HasPrefix_def)
  apply (rule digest_rounds_next, simp add: digest_line_def HasPrefix_def)
  apply (rule digest_rounds_next, simp add: digest_line_def HasPrefix_def)
  apply (rule digest_rounds_head)
  done

lemma digest_rounds_d:
  "(''SYMBOL TABLE:'' #
      [''[ 1](sec  2)(fl 0x00)(ty   0)(scl   2) (nx 0) 0x00000000 __imp_bar'', ''''], s)
     \<in> set (digest_rounds G dump_d s)"
  unfolding dump_d_def
  apply (rule digest_rounds_next, simp add: digest_line_def HasPrefix_def)
  apply (rule digest_rounds_next, simp add: digest_line_def HasPrefix_def)
  apply (rule digest_rounds_next, simp add: digest_line_def HasPrefix_def)
  apply (rule digest_rounds_head)
  done

text \<open>\<open>Sscanf\<close> on tokens with space before the number, a sign, or bytes after it.\<close>

lemma Sscanf_examples:
  "Sscanf_x ''1_0'' = Some 1"
  "Sscanf_x [CHR 0x0B, CHR ''1'', CHR ''f''] = Some 31"
  "Sscanf_0x_x ''0x1_0'' = Some 1"
  "Sscanf_0x_x ''0x +1z'' = Some 1"
  "Sscanf_0x_x '' 0x1'' = None"
  "Sscanf_x ''-1f'' = Some (- 31)"
  "Sscanf_x (CHR 0xC2 # CHR 0xA0 # CHR 0xE2 # CHR 0x80 # CHR 0x8A # ''a'') = Some 10"
  "Sscanf_x (CHR 0x85 # ''1'') = None"
  "Sscanf_x ''7fffffffffffffff'' = Some 9223372036854775807"
  "Sscanf_x ''ffffffffffffffff'' = None"
  "Sscanf_d ''-9223372036854775808'' = Some (- 9223372036854775808)"
  "Sscanf_d ''9223372036854775808'' = None"
  "Sscanf_d ''-'' = None"
  by code_simp+

section \<open>Pass 2 and the closure of the set of interesting symbols\<close>

text \<open>Claim C3, as stated, fails: pass 2 ranges over the keys that pass 1 collected and
  does not visit the names it adds. For the object \<open>n.o\<close>, pass 1 finds \<open>__imp___imp_foo\<close>,
  pass 2 adds \<open>__imp_foo\<close>, which carries the import prefix, and does not add \<open>foo\<close>.\<close>

theorem pass2_not_closed_counterexample:
  "''__imp_foo'' \<in> set (all_syms (pass2 (snd (pass1_files env_nested (mkGlobals False []) 0
       [''n.o''] (newState [''n.o''])))))
   \<and> HasPrefix ''__imp_foo'' imppref
   \<and> drop (length imppref) ''__imp_foo'' \<notin> set (all_syms (pass2 (snd (pass1_files env_nested
       (mkGlobals False []) 0 [''n.o''] (newState [''n.o''])))))"
  unfolding pass1_nested
  by (simp add: pass2_def HasPrefix_def imppref_def insert_key_def)

text \<open>Claim C3, amended: when no name in the set of interesting symbols at the start of
  pass 2 carries the import prefix twice, every name in the set after pass 2 that carries the
  import prefix has its base in the set.\<close>

theorem pass2_closed:
  assumes "\<forall>k\<in>set (all_syms s). \<not> HasPrefix k (imppref @ imppref)"
    and "n \<in> set (all_syms (pass2 s))" and "HasPrefix n imppref"
  shows "drop (length imppref) n \<in> set (all_syms (pass2 s))"
proof -
  from assms(2) consider "n \<in> set (all_syms s)"
    | k where "k \<in> set (all_syms s)" "HasPrefix k imppref" "n = drop (length imppref) k"
    by (auto simp: pass2_set)
  then show ?thesis
  proof cases
    case 1
    with assms(3) show ?thesis by (auto simp: pass2_set)
  next
    case 2
    from 2(2) have "k = imppref @ n"
      using 2(3) by (metis HasPrefix_def append_take_drop_id)
    moreover from assms(3) have "n = imppref @ drop (length imppref) n"
      by (metis HasPrefix_def append_take_drop_id)
    ultimately have "HasPrefix k (imppref @ imppref)"
      by (metis HasPrefix_def append.assoc append_eq_conv_conj)
    with assms(1) 2(1) show ?thesis by blast
  qed
qed

theorem pass2_closed_witness:
  "list_all (\<lambda>k. \<not> HasPrefix k (imppref @ imppref))
     (all_syms (snd (pass1_files env_ab (mkGlobals False []) 0 [''a.o'', ''b.o'']
        (newState [''a.o'', ''b.o'']))))
   \<and> ''__imp_foo'' \<in> set (all_syms (pass2 (snd (pass1_files env_ab (mkGlobals False []) 0
        [''a.o'', ''b.o''] (newState [''a.o'', ''b.o''])))))
   \<and> HasPrefix ''__imp_foo'' imppref
   \<and> drop (length imppref) ''__imp_foo'' \<in> set (all_syms (pass2 (snd (pass1_files env_ab
        (mkGlobals False []) 0 [''a.o'', ''b.o''] (newState [''a.o'', ''b.o''])))))"
proof -
  let ?s = "snd (pass1_files env_ab (mkGlobals False []) 0 [''a.o'', ''b.o'']
              (newState [''a.o'', ''b.o'']))"
  have h1: "\<forall>k\<in>set (all_syms ?s). \<not> HasPrefix k (imppref @ imppref)"
    unfolding pass1_ab by (simp add: HasPrefix_def imppref_def)
  have h2: "''__imp_foo'' \<in> set (all_syms (pass2 ?s))"
    unfolding pass1_ab by (simp add: pass2_def HasPrefix_def imppref_def insert_key_def)
  have h3: "HasPrefix ''__imp_foo'' imppref"
    by (simp add: HasPrefix_def imppref_def)
  from pass2_closed [OF h1 h2 h3] h1 h2 h3 show ?thesis by (simp add: list_all_iff)
qed

section \<open>The interest predicate\<close>

lemma isInterestingSym_iff:
  "isInterestingSym G s n \<longleftrightarrow>
     HasPrefix n ''__imp'' \<or> allsymsflag G \<or> get_bool (watched G) n \<or> n \<in> set (all_syms s)"
  by (simp add: isInterestingSym_def)

text \<open>A row or a relocation whose name is not interesting changes nothing.\<close>

lemma uninteresting_discarded:
  assumes "\<not> isInterestingSym G s n"
  shows "admit_row G secidx val n (dl, s) = Next (dl, s)"
    and "FindStringSubmatch symre line = [m0, m1, m2, n] \<Longrightarrow> pass1_symtab G line s \<in> {Next s, Break s}"
    and "FindStringSubmatch relre line = [m0, m1, m2, n] \<Longrightarrow>
           readRelocations_row G line s \<in> {Next s, Break s}"
  using assms
  by (auto simp: admit_row_def pass1_symtab_def readRelocations_row_def Let_def)

text \<open>Claim C4, at a name the code and the claim disagree on: \<open>isInterestingSym\<close> tests the
  prefix \<open>__imp\<close>, which is one character shorter than the import prefix \<open>imppref\<close> that the
  rest of the program strips. With no flag, no watched symbol and an empty set of interesting
  symbols, the name \<open>__impfoo\<close> does not carry the import prefix and is interesting.\<close>

theorem isInterestingSym_short_prefix:
  "isInterestingSym (mkGlobals False []) (newState [''a.o'']) ''__impfoo''
   \<and> \<not> HasPrefix ''__impfoo'' imppref
   \<and> \<not> allsymsflag (mkGlobals False [])
   \<and> \<not> get_bool (watched (mkGlobals False [])) ''__impfoo''
   \<and> ''__impfoo'' \<notin> set (all_syms (newState [''a.o'']))"
  by (simp add: isInterestingSym_def HasPrefix_def imppref_def mkGlobals_def mkWatched_def
        get_bool_def newState_def)

section \<open>Recovery of the source path\<close>

lemma pathinfo_lines_find:
  "pathinfo_lines ls =
     (case List.find (\<lambda>l. HasPrefix l ''pn: '') ls of None \<Rightarrow> [] | Some l \<Rightarrow> drop 4 l)"
  by (induction ls) auto

text \<open>Claim C9: for an input \<open>X.o\<close> the file \<open>X.txt\<close> is read, and the recovered path is
  what follows \<open>pn: \<close> in the first line (of the lines between newlines) that begins with
  it, as it stands; the path is empty when the file cannot be read, when no line begins
  with \<open>pn: \<close>, and when the name of the input does not end in \<open>.o\<close>. The function returns
  a string in every case, so no error arises.\<close>

theorem pathinfo_sidecar:
  "pathinfo E (X @ ''.o'') =
     (case ReadFile E (X @ ''.txt'') of
        None \<Rightarrow> []
      | Some content \<Rightarrow>
          (case List.find (\<lambda>l. HasPrefix l ''pn: '') (Split content (CHR 0x0A)) of
             None \<Rightarrow> []
           | Some l \<Rightarrow> drop 4 l))
   \<and> (\<not> HasSuffix infile ''.o'' \<longrightarrow> pathinfo E infile = [])"
proof -
  have t: "take (length (X @ ''.o'') - 1) (X @ ''.o'') @ ''txt'' = X @ ''.txt''"
    by simp
  have h: "HasSuffix (X @ ''.o'') ''.o''"
    by (simp add: HasSuffix_def)
  have a: "pathinfo E (X @ ''.o'') =
          (case ReadFile E (X @ ''.txt'') of
             None \<Rightarrow> []
           | Some content \<Rightarrow> pathinfo_lines (Split content (CHR 0x0A)))"
    unfolding pathinfo_def Let_def t by (simp only: h simp_thms if_False)
  have b: "\<not> HasSuffix infile ''.o'' \<longrightarrow> pathinfo E infile = []"
    by (simp add: pathinfo_def)
  show ?thesis
    by (rule conjI) (simp only: a pathinfo_lines_find, rule b)
qed

theorem pathinfo_sidecar_witness:
  "pathinfo env_ab ''a.o'' = ''/src/a.c''
   \<and> \<not> HasSuffix ''a.c'' ''.o''
   \<and> pathinfo env_ab ''a.c'' = []"
  using pathinfo_sidecar [of env_ab "''a''" "''a.c''"]
  by (simp add: env_ab_def HasSuffix_def HasPrefix_def unlines_def)

section \<open>Definitions are written once\<close>

lemma admit_row_defs_kept:
  "defs s n = Some d \<Longrightarrow> defs (snd (ctl_val (admit_row G secidx val sname (dl, s)))) n = Some d"
  by (auto simp: admit_row_def Let_def)

lemma pass3_files_defs_kept:
  "defs s n = Some d \<Longrightarrow> defs (snd (pass3_files E G k files s)) n = Some d"
proof -
  define R where "R = (\<lambda>(a :: state) (b :: state). defs a n = Some d \<longrightarrow> defs b n = Some d)"
  have "R s (snd (pass3_files E G k files s))"
    by (rule pass3_files_rel) (auto simp: R_def admit_row_defs_kept)
  then show "defs s n = Some d \<Longrightarrow> defs (snd (pass3_files E G k files s)) n = Some d"
    by (simp add: R_def)
qed

text \<open>The row panics before anything is written.\<close>

lemma duplicate_definition_row:
  assumes "\<not> HasPrefix line ''AUX ''" and "line \<noteq> []"
    and "FindStringSubmatch symre line = [m0, m1, m2, sname]"
    and "Sscanf_d m1 = Some secidx" and "Sscanf_0x_x m2 = Some val"
    and "isInterestingSym G s sname" and "secidx \<noteq> 0" and "defs s sname = Some d"
  shows "readSymtab_row G line (dl, s) = Fail (Panic ''resolve collision here'') (dl, s)"
  using assms by (simp add: readSymtab_row_def admit_row_def Let_def)

text \<open>Claim C2: in a run of \<open>main\<close> on the files \<open>pre @ f # post\<close>, pass 1 and pass 3 on the
  files \<open>pre\<close> end without an error, and the loop of \<open>digest\<close> on the dump of \<open>f\<close> comes to a
  symbol table, whose loop comes to the row \<open>line\<close> with the local map \<open>dl\<close> and the state
  \<open>s\<close>. The row is admitted (its name is interesting) with a section index other than zero,
  for a name that has a definition already. Then \<open>main\<close> ends with the panic, in the state
  \<open>s\<close>: the row has written nothing to the maps \<open>defs\<close>, \<open>refs\<close> and \<open>defref\<close> nor to the local
  map. The map \<open>defs\<close> holds one definition per name, and no step of pass 3 replaces one it
  holds.\<close>

theorem duplicate_definition_aborts:
  assumes "inputsflag \<noteq> []" and "Split inputsflag (CHR '','') = pre @ f # post"
    and "G = mkGlobals allsyms watchsymsflag"
    and "pass1_files E G 0 (pre @ f # post) (newState (pre @ f # post)) = (None, s1)"
    and "pass3_files E G 0 pre (pass2 s1) = (None, s2)"
    and "objdump_htr E f = Inr out"
    and "(''SYMBOL TABLE:'' # ls, s3)
           \<in> set (digest_rounds G (ScanLines out) (s2\<lparr>objidx := int (length pre)\<rparr>))"
    and "(line # rest, (dl, s)) \<in> set (scan_rounds (readSymtab_row G) ls ([], s3))"
    and "\<not> HasPrefix line ''AUX ''" and "line \<noteq> []"
    and "FindStringSubmatch symre line = [m0, m1, m2, sname]"
    and "Sscanf_d m1 = Some secidx" and "Sscanf_0x_x m2 = Some val"
    and "isInterestingSym G s sname" and "secidx \<noteq> 0" and "defs s sname = Some d"
  shows "main E inputsflag allsyms watchsymsflag = (Some (Panic ''resolve collision here''), s)
         \<and> readSymtab_row G line (dl, s) = Fail (Panic ''resolve collision here'') (dl, s)
         \<and> objidx s = int (length pre)
         \<and> (\<forall>E' k files. defs (snd (pass3_files E' G k files s)) sname = Some d)"
proof -
  have row: "readSymtab_row G line (dl, s) = Fail (Panic ''resolve collision here'') (dl, s)"
    using assms(9-16) by (rule duplicate_definition_row)
  have "scan_loop (readSymtab_row G) ls ([], s3)
        = scan_loop (readSymtab_row G) (line # rest) (dl, s)"
    using assms(8) by (rule scan_loop_round)
  also have "\<dots> = (Some (Panic ''resolve collision here''), rest, (dl, s))"
    using row by simp
  finally have "readSymtab G ls s3 = (Some (Panic ''resolve collision here''), rest, s)"
    by (simp add: readSymtab_def)
  then have "digest_line G ''SYMBOL TABLE:'' ls s3
             = (Some (Panic ''resolve collision here''), rest, s)"
    by (simp add: digest_line_def)
  with assms(1-7) have "main E inputsflag allsyms watchsymsflag
      = (Some (fatal_reading f (Panic ''resolve collision here'')), s)"
    by (rule main_digest_error)
  moreover have "objidx s = int (length pre)"
    using symtab_rounds_objidx [OF assms(8)] digest_rounds_objidx [OF assms(7)] by simp
  ultimately show ?thesis
    using row assms(16) by (simp add: pass3_files_defs_kept)
qed

theorem duplicate_definition_aborts_witness:
  "main env_cd ''b.o,d.o'' False [] =
     (Some (Panic ''resolve collision here''), state_b_done\<lparr>objidx := 1\<rparr>)
   \<and> defs (state_b_done\<lparr>objidx := 1\<rparr>) ''__imp_bar'' =
       Some \<lparr>def_objidx = 0, def_secidx = 2, def_value = 0\<rparr>
   \<and> refs (state_b_done\<lparr>objidx := 1\<rparr>) ''__imp_bar'' =
       Some [\<lparr>ref_objidx = 0, ref_secidx = 2, offsets = [], ref_def = True\<rparr>]
   \<and> defs (snd (pass3_files env_cd (mkGlobals False []) 1 [''d.o'']
         (state_b_done\<lparr>objidx := 1\<rparr>))) ''__imp_bar'' =
       Some \<lparr>def_objidx = 0, def_secidx = 2, def_value = 0\<rparr>"
proof -
  let ?G = "mkGlobals False []"
  let ?s1 = "snd (pass1_files env_cd ?G 0 [''b.o'', ''d.o''] (newState [''b.o'', ''d.o'']))"
  let ?s = "state_b_done\<lparr>objidx := int (length [''b.o''])\<rparr>"
  let ?line = "''[ 1](sec  2)(fl 0x00)(ty   0)(scl   2) (nx 0) 0x00000000 __imp_bar''"
  let ?d = "\<lparr>def_objidx = 0, def_secidx = 2, def_value = 0\<rparr>"
  have h1: "''b.o,d.o'' \<noteq> []" by simp
  have h2: "Split ''b.o,d.o'' (CHR '','') = [''b.o''] @ ''d.o'' # []" by simp
  have h3: "?G = mkGlobals False []" by simp
  have h4: "pass1_files env_cd ?G 0 ([''b.o''] @ ''d.o'' # []) (newState ([''b.o''] @ ''d.o'' # []))
              = (None, ?s1)"
    unfolding append.simps pass1_bd by simp
  have h5: "pass3_files env_cd ?G 0 [''b.o''] (pass2 ?s1) = (None, state_b_done)"
    unfolding state_b_done_def pass3_b_done by simp
  have h6: "objdump_htr env_cd ''d.o'' = Inr (unlines dump_d)"
    by (simp add: env_cd_def)
  have h7: "(''SYMBOL TABLE:'' # [?line, ''''], ?s)
              \<in> set (digest_rounds ?G (ScanLines (unlines dump_d)) ?s)"
    unfolding ScanLines_dumps_cd by (rule digest_rounds_d)
  have h8: "(?line # [''''], ([], ?s))
              \<in> set (scan_rounds (readSymtab_row ?G) [?line, ''''] ([], ?s))"
    by (rule scan_rounds_head)
  have h9: "\<not> HasPrefix ?line ''AUX ''" by (simp add: HasPrefix_def)
  have h10: "?line \<noteq> []" by simp
  have h14: "isInterestingSym ?G ?s ''__imp_bar''"
    by (simp add: isInterestingSym_def HasPrefix_def)
  have h15: "(2 :: int) \<noteq> 0" by simp
  have h16: "defs ?s ''__imp_bar'' = Some ?d"
    unfolding state_b_done_eval by simp
  have r: "refs ?s ''__imp_bar'' =
      Some [\<lparr>ref_objidx = 0, ref_secidx = 2, offsets = [], ref_def = True\<rparr>]"
    unfolding state_b_done_eval by simp
  note t = duplicate_definition_aborts [OF h1 h2 h3 h4 h5 h6 h7 h8 h9 h10 decode_symre_7
      scan_6 scan_1 h14 h15 h16]
  have n: "int (length [''b.o'']) = 1" by simp
  from t have a: "main env_cd ''b.o,d.o'' False [] = (Some (Panic ''resolve collision here''), ?s)"
    by (rule conjunct1)
  from t have b: "defs (snd (pass3_files env_cd ?G 1 [''d.o''] ?s)) ''__imp_bar'' = Some ?d"
    by blast
  from a h16 r b show ?thesis unfolding n by (intro conjI)
qed

section \<open>A relocation with no reference of the current object\<close>

lemma walk_refs_not_found:
  "rl = [] \<or> ref_objidx (last rl) \<noteq> k \<Longrightarrow> walk_refs k off rl 0 False = (rl, False)"
  by (subst walk_refs.simps) (auto simp: Let_def last_conv_nth)

text \<open>The row fails, with the message of the first test that fails, and writes nothing.\<close>

lemma missing_reference_row:
  assumes "line \<noteq> []"
    and "FindStringSubmatch relre line = [m0, soff, styp, sval]"
    and "isInterestingSym G s sval"
    and "refs s sval = None \<or>
         (\<exists>rl. refs s sval = Some rl \<and> (rl = [] \<or> ref_objidx (last rl) \<noteq> objidx s))"
  shows "readRelocations_row G line s =
           Fail (Errorf
             (if Sscanf_x soff = None then ''can't parse offset in line '' @ line @ '' relocs''
              else if refs s sval = None then ''can't find refs entry in '' @ line
              else ''could not find ref info for reloc '' @ line)) s"
proof (cases "Sscanf_x soff")
  case None
  then show ?thesis using assms by (simp add: readRelocations_row_def Let_def)
next
  case (Some off)
  from assms(4) show ?thesis
  proof
    assume "refs s sval = None"
    then show ?thesis using assms Some by (simp add: readRelocations_row_def Let_def)
  next
    assume "\<exists>rl. refs s sval = Some rl \<and> (rl = [] \<or> ref_objidx (last rl) \<noteq> objidx s)"
    then obtain rl where rl: "refs s sval = Some rl"
      and "rl = [] \<or> ref_objidx (last rl) \<noteq> objidx s" by blast
    then have w: "walk_refs (objidx s) off rl 0 False = (rl, False)"
      by (simp add: walk_refs_not_found)
    have "s\<lparr>refs := (refs s)(sval \<mapsto> rl)\<rparr> = s"
      using rl by (simp add: map_upd_triv)
    then show ?thesis
      using assms Some rl w by (simp add: readRelocations_row_def Let_def)
  qed
qed

text \<open>Claim C5: in a run of \<open>main\<close> on the files \<open>pre @ f # post\<close>, pass 1 and pass 3 on the
  files \<open>pre\<close> end without an error, and the loop of \<open>digest\<close> on the dump of \<open>f\<close> comes to the
  header \<open>rline\<close> of a block of relocations, whose loop comes to the row \<open>line\<close> in the state
  \<open>s\<close>. The row names an interesting symbol with no list of references, or whose list ends
  with an entry of another object, so that the walk backwards finds nothing. Then \<open>main\<close>
  ends with the fatal error \<open>reading f: ...\<close> whose message holds the row, in the state \<open>s\<close>:
  the row has written nothing, and \<open>s\<close> has the index of \<open>f\<close> as current object. The offset
  is decoded before the list is looked up, so for an offset that does not parse the
  message is the one of the offset.\<close>

theorem missing_reference_is_fatal:
  assumes "inputsflag \<noteq> []" and "Split inputsflag (CHR '','') = pre @ f # post"
    and "G = mkGlobals allsyms watchsymsflag"
    and "pass1_files E G 0 (pre @ f # post) (newState (pre @ f # post)) = (None, s1)"
    and "pass3_files E G 0 pre (pass2 s1) = (None, s2)"
    and "objdump_htr E f = Inr out"
    and "(rline # ls, s3)
           \<in> set (digest_rounds G (ScanLines out) (s2\<lparr>objidx := int (length pre)\<rparr>))"
    and "HasPrefix rline ''RELOCATION RECORDS FOR [''"
    and "FindStringSubmatch relsecre rline \<noteq> []"
    and "(line # rest, s) \<in> set (scan_rounds (readRelocations_row G) (drop 1 ls) s3)"
    and "line \<noteq> []"
    and "FindStringSubmatch relre line = [m0, soff, styp, sval]"
    and "isInterestingSym G s sval"
    and "refs s sval = None \<or>
         (\<exists>rl. refs s sval = Some rl \<and> (rl = [] \<or> ref_objidx (last rl) \<noteq> objidx s))"
  shows "main E inputsflag allsyms watchsymsflag =
           (Some (Fatal (''reading '' @ f @ '': '' @
              (if Sscanf_x soff = None then ''can't parse offset in line '' @ line @ '' relocs''
               else if refs s sval = None then ''can't find refs entry in '' @ line
               else ''could not find ref info for reloc '' @ line))), s)
         \<and> objidx s = int (length pre)"
proof -
  let ?msg = "if Sscanf_x soff = None then ''can't parse offset in line '' @ line @ '' relocs''
               else if refs s sval = None then ''can't find refs entry in '' @ line
               else ''could not find ref info for reloc '' @ line"
  have row: "readRelocations_row G line s = Fail (Errorf ?msg) s"
    using assms(11-14) by (rule missing_reference_row)
  have "scan_loop (readRelocations_row G) (drop 1 ls) s3
        = scan_loop (readRelocations_row G) (line # rest) s"
    using assms(10) by (rule scan_loop_round)
  also have "\<dots> = (Some (Errorf ?msg), rest, s)" using row by simp
  finally have "readRelocations G rline ls s3 = (Some (Errorf ?msg), rest, s)"
    using assms(9) by (simp add: readRelocations_def Let_def)
  moreover have "rline \<noteq> ''Sections:''" "rline \<noteq> ''SYMBOL TABLE:''"
    using assms(8) by (auto simp: HasPrefix_def)
  ultimately have "digest_line G rline ls s3 = (Some (Errorf ?msg), rest, s)"
    using assms(8) by (simp add: digest_line_def)
  with assms(1-7) have "main E inputsflag allsyms watchsymsflag
      = (Some (fatal_reading f (Errorf ?msg)), s)"
    by (rule main_digest_error)
  moreover have "objidx s = int (length pre)"
    using relocation_rounds_objidx [OF assms(10)] digest_rounds_objidx [OF assms(7)] by simp
  ultimately show ?thesis by simp
qed

theorem missing_reference_is_fatal_witness:
  "main env_cd ''a.o,c.o'' False [] =
     (Some (Fatal (''reading c.o: could not find ref info for reloc ''
                   @ ''000000000000000e IMAGE_REL_AMD64_REL32    __imp_baz'')),
      state_a_done\<lparr>objidx := 1\<rparr>)
   \<and> refs (state_a_done\<lparr>objidx := 1\<rparr>) ''__imp_baz'' =
       Some [\<lparr>ref_objidx = 0, ref_secidx = 0, offsets = [14, 27, 44], ref_def = False\<rparr>,
             \<lparr>ref_objidx = 0, ref_secidx = 0, offsets = [14, 27, 44], ref_def = False\<rparr>]
   \<and> objidx (state_a_done\<lparr>objidx := 1\<rparr>) = 1"
proof -
  let ?G = "mkGlobals False []"
  let ?s1 = "snd (pass1_files env_cd ?G 0 [''a.o'', ''c.o''] (newState [''a.o'', ''c.o'']))"
  let ?s = "state_a_done\<lparr>objidx := int (length [''a.o''])\<rparr>"
  let ?rline = "''RELOCATION RECORDS FOR [.text]:''"
  let ?hdr = "''OFFSET           TYPE                     VALUE''"
  let ?line = "''000000000000000e IMAGE_REL_AMD64_REL32    __imp_baz''"
  let ?rl = "[\<lparr>ref_objidx = 0, ref_secidx = 0, offsets = [14, 27, 44], ref_def = False\<rparr>,
              \<lparr>ref_objidx = 0, ref_secidx = 0, offsets = [14, 27, 44], ref_def = False\<rparr>]"
  have h1: "''a.o,c.o'' \<noteq> []" by simp
  have h2: "Split ''a.o,c.o'' (CHR '','') = [''a.o''] @ ''c.o'' # []" by simp
  have h3: "?G = mkGlobals False []" by simp
  have h4: "pass1_files env_cd ?G 0 ([''a.o''] @ ''c.o'' # []) (newState ([''a.o''] @ ''c.o'' # []))
              = (None, ?s1)"
    unfolding append.simps pass1_ac by simp
  have h5: "pass3_files env_cd ?G 0 [''a.o''] (pass2 ?s1) = (None, state_a_done)"
    unfolding state_a_done_def pass3_a_done by simp
  have h6: "objdump_htr env_cd ''c.o'' = Inr (unlines dump_htr_c)"
    by (simp add: env_cd_def)
  have h7: "(?rline # [?hdr, ?line, ''''], ?s)
              \<in> set (digest_rounds ?G (ScanLines (unlines dump_htr_c)) ?s)"
    unfolding ScanLines_dumps_cd by (rule digest_rounds_c)
  have h8: "HasPrefix ?rline ''RELOCATION RECORDS FOR [''" by (simp add: HasPrefix_def)
  have h9: "FindStringSubmatch relsecre ?rline \<noteq> []" by (simp add: decode_relsecre_1)
  have d: "drop 1 [?hdr, ?line, ''''] = [?line, '''']" by simp
  have h10: "(?line # [''''], ?s)
               \<in> set (scan_rounds (readRelocations_row ?G) (drop 1 [?hdr, ?line, '''']) ?s)"
    unfolding d by (rule scan_rounds_head)
  have h11: "?line \<noteq> []" by simp
  have h13: "isInterestingSym ?G ?s ''__imp_baz''"
    by (simp add: isInterestingSym_def HasPrefix_def)
  have r: "refs ?s ''__imp_baz'' = Some ?rl"
    unfolding state_a_done_eval by simp
  have o: "objidx ?s = 1" by simp
  have h14: "refs ?s ''__imp_baz'' = None \<or>
      (\<exists>rl. refs ?s ''__imp_baz'' = Some rl \<and> (rl = [] \<or> ref_objidx (last rl) \<noteq> objidx ?s))"
    using r o by simp
  note t = missing_reference_is_fatal [OF h1 h2 h3 h4 h5 h6 h7 h8 h9 h10 h11 decode_relre_2
      h13 h14]
  have n: "int (length [''a.o'']) = 1" by simp
  from t r have "main env_cd ''a.o,c.o'' False [] =
     (Some (Fatal (''reading c.o: could not find ref info for reloc '' @ ?line)), ?s)"
    by (simp add: scan_10)
  with r o show ?thesis unfolding n by (intro conjI)
qed

section \<open>Binding relocations to the references of the current object\<close>

text \<open>The walk appends the offset to the run of entries of the current object at the end
  of the list, and to nothing before it.\<close>

lemma walk_refs_run:
  assumes "\<forall>r\<in>set cur. ref_objidx r = k" and "old = [] \<or> ref_objidx (last old) \<noteq> k"
  shows "walk_refs k off (old @ cur @ post) (length post) found =
           (old @ map (\<lambda>r. r\<lparr>offsets := offsets r @ [off]\<rparr>) cur @ post, found \<or> cur \<noteq> [])"
  using assms(1)
proof (induction cur arbitrary: post found rule: rev_induct)
  case Nil
  show ?case
  proof (cases "old = []")
    case True
    then show ?thesis by (subst walk_refs.simps) simp
  next
    case False
    with assms(2) have "ref_objidx (last old) \<noteq> k" by simp
    moreover have "(old @ post) ! (length old - Suc 0) = last old"
      using False by (simp add: nth_append last_conv_nth)
    ultimately show ?thesis
      using False by (subst walk_refs.simps) (simp add: Let_def)
  qed
next
  case (snoc y ys)
  let ?y' = "y\<lparr>offsets := offsets y @ [off]\<rparr>"
  have k: "ref_objidx y = k" using snoc.prems by simp
  have i: "length post < length (old @ (ys @ [y]) @ post)" by simp
  have j: "length (old @ (ys @ [y]) @ post) - length post - 1 = length old + length ys"
    by simp
  have n: "(old @ (ys @ [y]) @ post) ! (length old + length ys) = y"
    by (simp add: nth_append)
  have u: "(old @ (ys @ [y]) @ post)[length old + length ys := ?y'] = old @ ys @ (?y' # post)"
    by (simp add: list_update_append)
  have "walk_refs k off (old @ (ys @ [y]) @ post) (length post) found =
          walk_refs k off (old @ ys @ (?y' # post)) (Suc (length post)) True"
    by (subst walk_refs.simps) (simp only: i j n u k Let_def if_True simp_thms if_False)
  also have "\<dots> = (old @ map (\<lambda>r. r\<lparr>offsets := offsets r @ [off]\<rparr>) ys @ (?y' # post),
                  True \<or> ys \<noteq> [])"
    using snoc.IH [of "?y' # post" True] snoc.prems by simp
  finally show ?case by simp
qed

lemma readRelocations_row_next:
  assumes "readRelocations_row G line s = Next s2"
    and "isInterestingSym G s nm"
    and "refs s nm = Some (old @ cur)"
    and "\<forall>r\<in>set cur. ref_objidx r = objidx s"
    and "old = [] \<or> ref_objidx (last old) \<noteq> objidx s"
  shows "line \<noteq> [] \<and> all_syms s2 = all_syms s \<and> objidx s2 = objidx s
         \<and> refs s2 nm =
             Some (old @ map (\<lambda>r. r\<lparr>offsets := offsets r @ row_offset nm line\<rparr>) cur)"
proof -
  let ?m = "FindStringSubmatch relre line"
  from assms(1) have ne: "line \<noteq> []" and m: "length ?m \<noteq> 0"
    by (auto simp: readRelocations_row_def Let_def split: if_splits)
  have fr: "all_syms s2 = all_syms s" "objidx s2 = objidx s"
    using readRelocations_row_frame(3,4) [of G line s] assms(1) by simp_all
  show ?thesis
  proof (cases "?m ! 3 = nm")
    case False
    then have "row_offset nm line = []" by (simp add: row_offset_def)
    moreover have "refs s2 nm = refs s nm"
      using assms(1) ne m False
      by (auto simp: readRelocations_row_def Let_def split: if_splits option.splits prod.splits)
    ultimately show ?thesis using ne fr assms(3) by simp
  next
    case True
    with assms(1,2) ne m obtain off where off: "Sscanf_x (?m ! 1) = Some off"
      by (auto simp: readRelocations_row_def Let_def split: option.splits)
    have w: "walk_refs (objidx s) off (old @ cur) 0 False =
               (old @ map (\<lambda>r. r\<lparr>offsets := offsets r @ [off]\<rparr>) cur, cur \<noteq> [])"
      using walk_refs_run [OF assms(4,5), of off "[]" False] by simp
    have "refs s2 nm = Some (old @ map (\<lambda>r. r\<lparr>offsets := offsets r @ [off]\<rparr>) cur)"
      using assms(1,2,3) ne m True off w
      by (auto simp: readRelocations_row_def Let_def split: if_splits)
    moreover have "row_offset nm line = [off]"
      using m True off by (simp add: row_offset_def)
    ultimately show ?thesis using ne fr by simp
  qed
qed

lemma relocations_loop:
  assumes "scan_loop (readRelocations_row G) ls s = (None, rest, s')"
    and "isInterestingSym G s nm"
    and "refs s nm = Some (old @ cur)"
    and "\<forall>r\<in>set cur. ref_objidx r = objidx s"
    and "old = [] \<or> ref_objidx (last old) \<noteq> objidx s"
  shows "refs s' nm =
           Some (old @ map (\<lambda>r. r\<lparr>offsets := offsets r @ reloc_offsets nm ls\<rparr>) cur)"
  using assms
proof (induction ls arbitrary: s cur)
  case Nil
  then show ?case by simp
next
  case (Cons line ls)
  show ?case
  proof (cases "readRelocations_row G line s")
    case (Next s2)
    note row = readRelocations_row_next [OF Next Cons.prems(2-5)]
    let ?cur = "map (\<lambda>r. r\<lparr>offsets := offsets r @ row_offset nm line\<rparr>) cur"
    have "refs s' nm =
            Some (old @ map (\<lambda>r. r\<lparr>offsets := offsets r @ reloc_offsets nm ls\<rparr>) ?cur)"
    proof (rule Cons.IH [of s2 ?cur])
      show "scan_loop (readRelocations_row G) ls s2 = (None, rest, s')"
        using Cons.prems(1) Next by simp
      show "isInterestingSym G s2 nm"
        using Cons.prems(2) row by (simp add: isInterestingSym_def)
      show "refs s2 nm = Some (old @ ?cur)" using row by simp
      show "\<forall>r\<in>set ?cur. ref_objidx r = objidx s2" using Cons.prems(4) row by simp
      show "old = [] \<or> ref_objidx (last old) \<noteq> objidx s2" using Cons.prems(5) row by simp
    qed
    then show ?thesis using row by (simp add: comp_def)
  next
    case (Break s2)
    then have "line = []" "s2 = s"
      by (auto simp: readRelocations_row_def Let_def split: if_splits option.splits prod.splits)
    then show ?thesis using Cons.prems Break by simp
  next
    case (Fail e s2)
    then show ?thesis using Cons.prems(1) by simp
  qed
qed

text \<open>An offset is scanned as \<open>Sscanf\<close> scans it: space before the number is skipped and
  what follows its digits is left.\<close>

lemma reloc_offsets_examples:
  "reloc_offsets ''__imp_k'' [''1_0 T __imp_k'', '''', ''2 T __imp_k''] = [1]"
  "reloc_offsets ''__imp_k'' [[CHR 0x0B, CHR ''1'', CHR ''f''] @ '' T __imp_k'', ''zz T __imp_k''] = [31]"
  by code_simp+

text \<open>Claim C1: when a block of relocations is read to its end, a symbol whose list of
  references ends with a run \<open>cur\<close> of entries of the current object (of any length \<open>k\<close>),
  after entries \<open>old\<close> the last of which is of another object, has each of the offsets of
  the rows that name it (\<open>m\<close> of them, in the order of the rows) appended to every entry of
  the run; the entries before the run are as they were.\<close>

theorem relocations_reach_every_entry:
  assumes "readRelocations G rline ls s = (None, rest, s')"
    and "isInterestingSym G s nm"
    and "refs s nm = Some (old @ cur)"
    and "\<forall>r\<in>set cur. ref_objidx r = objidx s"
    and "old = [] \<or> ref_objidx (last old) \<noteq> objidx s"
  shows "refs s' nm =
           Some (old @ map (\<lambda>r. r\<lparr>offsets := offsets r @ reloc_offsets nm (drop 1 ls)\<rparr>) cur)"
proof -
  from assms(1) have "scan_loop (readRelocations_row G) (drop 1 ls) s = (None, rest, s')"
    by (simp add: readRelocations_def Let_def split: if_splits)
  then show ?thesis
    using assms(2-5) by (rule relocations_loop)
qed

theorem relocations_reach_every_entry_witness:
  "fst (readRelocations (mkGlobals False []) ''RELOCATION RECORDS FOR [.text]:'' relocs_a
          state_a_symtab) = None
   \<and> refs state_a_symtab ''__imp_baz'' =
       Some [\<lparr>ref_objidx = 0, ref_secidx = 0, offsets = [], ref_def = False\<rparr>,
             \<lparr>ref_objidx = 0, ref_secidx = 0, offsets = [], ref_def = False\<rparr>]
   \<and> reloc_offsets ''__imp_baz'' (drop 1 relocs_a) = [14, 27, 44]
   \<and> refs (snd (snd (readRelocations (mkGlobals False []) ''RELOCATION RECORDS FOR [.text]:''
          relocs_a state_a_symtab))) ''__imp_baz'' =
       Some [\<lparr>ref_objidx = 0, ref_secidx = 0, offsets = [14, 27, 44], ref_def = False\<rparr>,
             \<lparr>ref_objidx = 0, ref_secidx = 0, offsets = [14, 27, 44], ref_def = False\<rparr>]"
proof -
  let ?G = "mkGlobals False []"
  let ?r = "readRelocations ?G ''RELOCATION RECORDS FOR [.text]:'' relocs_a state_a_symtab"
  let ?e = "\<lparr>ref_objidx = 0, ref_secidx = 0, offsets = [], ref_def = False\<rparr>"
  have f: "fst ?r = None" by (simp add: relocs_a_eval)
  then have h1: "?r = (None, fst (snd ?r), snd (snd ?r))"
    by (metis prod.collapse)
  have h2: "isInterestingSym ?G state_a_symtab ''__imp_baz''"
    by (simp add: isInterestingSym_def HasPrefix_def)
  have r: "refs state_a_symtab ''__imp_baz'' = Some [?e, ?e]"
    unfolding state_a_symtab_eval by simp
  then have h3: "refs state_a_symtab ''__imp_baz'' = Some ([] @ [?e, ?e])" by simp
  have h4: "\<forall>r\<in>set [?e, ?e]. ref_objidx r = objidx state_a_symtab"
    unfolding state_a_symtab_eval by simp
  have h5: "([] :: refinfo list) = [] \<or> ref_objidx (last []) \<noteq> objidx state_a_symtab"
    by simp
  have ro: "reloc_offsets ''__imp_baz'' (drop 1 relocs_a) = [14, 27, 44]"
    by (simp add: relocs_a_def row_offset_def decodes)
  from relocations_reach_every_entry [OF h1 h2 h3 h4 h5] f r ro
  show ?thesis by simp
qed

section \<open>The set of interesting symbols only grows\<close>

lemma pass1_symtab_all_syms:
  "set (all_syms s) \<subseteq> set (all_syms (ctl_val (pass1_symtab G line s)))"
  by (auto simp: pass1_symtab_def Let_def insert_key_def)

lemma pass1_files_all_syms:
  "set (all_syms s) \<subseteq> set (all_syms (snd (pass1_files E G k files s)))"
proof -
  define R where "R = (\<lambda>(a :: state) (b :: state). set (all_syms a) \<subseteq> set (all_syms b))"
  have "R s (snd (pass1_files E G k files s))"
    by (rule pass1_files_rel) (auto simp: R_def dest: subsetD [OF pass1_symtab_all_syms])
  then show ?thesis by (simp add: R_def)
qed

lemma pass1_all_syms:
  "set (all_syms s) \<subseteq> set (all_syms (snd (pass1 E G infile s)))"
proof -
  define R where "R = (\<lambda>(a :: state) (b :: state). set (all_syms a) \<subseteq> set (all_syms b))"
  have "R s (snd (pass1 E G infile s))"
    by (rule pass1_rel) (auto simp: R_def dest: subsetD [OF pass1_symtab_all_syms])
  then show ?thesis by (simp add: R_def)
qed

lemma pass3_all_syms: "all_syms (snd (pass3 E G infile s)) = all_syms s"
proof -
  define R where "R = (\<lambda>(a :: state) (b :: state). all_syms b = all_syms a)"
  have "R s (snd (pass3 E G infile s))"
    by (rule pass3_rel) (auto simp: R_def)
  then show ?thesis by (simp add: R_def)
qed

lemma pass3_files_all_syms: "all_syms (snd (pass3_files E G k files s)) = all_syms s"
proof -
  define R where "R = (\<lambda>(a :: state) (b :: state). all_syms b = all_syms a)"
  have "R s (snd (pass3_files E G k files s))"
    by (rule pass3_files_rel) (auto simp: R_def)
  then show ?thesis by (simp add: R_def)
qed

text \<open>Claim C10: the globals (the flag \<open>-all\<close> and the watched symbols) are set before the
  passes and are an argument that no pass changes; the set of interesting symbols is only
  added to by pass 1 and pass 2 and is left as it is by pass 3. So a name that is
  interesting in a state is interesting after each pass over one file, after pass 2, and
  after each of the two loops over the files.\<close>

theorem interest_is_monotone:
  assumes "isInterestingSym G s n"
  shows "isInterestingSym G (snd (pass1 E G infile s)) n
       \<and> isInterestingSym G (snd (pass1_files E G k files s)) n
       \<and> isInterestingSym G (pass2 s) n
       \<and> isInterestingSym G (snd (pass3 E G infile s)) n
       \<and> isInterestingSym G (snd (pass3_files E G k files s)) n"
  using assms pass1_all_syms [of s E G infile] pass1_files_all_syms [of s E G k files]
  by (auto simp: isInterestingSym_def pass2_set pass3_all_syms pass3_files_all_syms)

theorem interest_is_monotone_witness:
  "isInterestingSym (mkGlobals False [])
     (pass2 (snd (pass1_files env_ab (mkGlobals False []) 0 [''a.o'', ''b.o'']
        (newState [''a.o'', ''b.o''])))) ''foo''
   \<and> \<not> isInterestingSym (mkGlobals False []) (newState [''a.o'', ''b.o'']) ''foo''
   \<and> isInterestingSym (mkGlobals False [])
       (snd (pass3_files env_ab (mkGlobals False []) 0 [''a.o'', ''b.o'']
          (pass2 (snd (pass1_files env_ab (mkGlobals False []) 0 [''a.o'', ''b.o'']
             (newState [''a.o'', ''b.o'']))))))
       ''foo''"
proof -
  let ?G = "mkGlobals False []"
  let ?s = "pass2 (snd (pass1_files env_ab ?G 0 [''a.o'', ''b.o''] (newState [''a.o'', ''b.o''])))"
  have h: "isInterestingSym ?G ?s ''foo''"
    unfolding pass1_ab
    by (simp add: isInterestingSym_def pass2_def HasPrefix_def imppref_def insert_key_def)
  have n: "\<not> isInterestingSym ?G (newState [''a.o'', ''b.o'']) ''foo''"
    by (simp add: isInterestingSym_def HasPrefix_def mkGlobals_def mkWatched_def get_bool_def
          newState_def)
  from interest_is_monotone [OF h, of env_ab "''a.o''" 0 "[''a.o'', ''b.o'']"] h n
  show ?thesis by (intro conjI) blast+
qed

section \<open>The lists of references are appended to, in the order of the objects\<close>

lemma walk_refs_step:
  assumes "i < length rl" and "ref_objidx (rl ! (length rl - i - 1)) = k"
  shows "walk_refs k off rl i found =
           walk_refs k off
             (rl[length rl - i - 1 :=
                   (rl ! (length rl - i - 1))\<lparr>offsets := offsets (rl ! (length rl - i - 1)) @ [off]\<rparr>])
             (Suc i) True"
  by (subst walk_refs.simps) (simp only: assms Let_def if_True simp_thms if_False)

lemma walk_refs_stop:
  assumes "\<not> (i < length rl \<and> ref_objidx (rl ! (length rl - i - 1)) = k)"
  shows "walk_refs k off rl i found = (rl, found)"
  using assms by (subst walk_refs.simps) (auto simp: Let_def)

lemma walk_refs_objidx:
  "map ref_objidx (fst (walk_refs k off rl i found)) = map ref_objidx rl"
proof (induction k off rl i found rule: walk_refs.induct)
  case (1 k off rl i found)
  show ?case
  proof (cases "i < length rl \<and> ref_objidx (rl ! (length rl - i - 1)) = k")
    case True
    let ?j = "length rl - i - 1"
    let ?rl = "rl[?j := (rl ! ?j)\<lparr>offsets := offsets (rl ! ?j) @ [off]\<rparr>]"
    have "?j < length rl" using True by linarith
    then have a: "map ref_objidx ?rl = map ref_objidx rl"
      by (simp add: map_update list_update_same_conv)
    have b: "map ref_objidx (fst (walk_refs k off ?rl (Suc i) True)) = map ref_objidx ?rl"
      by (rule 1 [OF _ refl]) (use True in auto)
    have c: "walk_refs k off rl i found = walk_refs k off ?rl (Suc i) True"
      using True by (intro walk_refs_step) auto
    show ?thesis unfolding c b a by (rule refl)
  next
    case False
    show ?thesis unfolding walk_refs_stop [OF False] by simp
  qed
qed

lemma walk_refs_ordered:
  assumes "walk_refs k off rl i found = (rl', f)"
    and "sorted (map ref_objidx rl)" and "\<forall>r\<in>set rl. ref_objidx r \<le> K"
  shows "sorted (map ref_objidx rl') \<and> (\<forall>r\<in>set rl'. ref_objidx r \<le> K)"
proof -
  have m: "map ref_objidx rl' = map ref_objidx rl"
    using walk_refs_objidx [of k off rl i found] assms(1) by simp
  have "ref_objidx r \<le> K" if "r \<in> set rl'" for r
  proof -
    from that have "ref_objidx r \<in> set (map ref_objidx rl')" by simp
    then have "ref_objidx r \<in> set (map ref_objidx rl)" by (simp only: m)
    then obtain r0 where "r0 \<in> set rl" "ref_objidx r0 = ref_objidx r" by auto
    with assms(3) show ?thesis by metis
  qed
  then show ?thesis using assms(2) m by simp
qed

lemma same_entry_refl [simp]: "same_entry r r"
  by (simp add: same_entry_def)

lemma same_entry_trans: "same_entry a b \<Longrightarrow> same_entry b c \<Longrightarrow> same_entry a c"
  by (auto simp: same_entry_def)

lemma list_all2_same_entry_trans:
  "list_all2 same_entry a b \<Longrightarrow> list_all2 same_entry b c \<Longrightarrow> list_all2 same_entry a c"
  using list_all2_trans [of same_entry same_entry same_entry a b c] same_entry_trans by blast

lemma ref_extends_refl [simp]: "ref_extends rl rl"
  by (simp add: ref_extends_def list_all2_refl)

lemma ref_extends_trans:
  assumes "ref_extends a b" and "ref_extends b c"
  shows "ref_extends a c"
proof -
  from assms have l: "length a \<le> length b" "length b \<le> length c"
    and ab: "list_all2 same_entry a (take (length a) b)"
    and bc: "list_all2 same_entry b (take (length b) c)"
    by (auto simp: ref_extends_def)
  from bc have "list_all2 same_entry (take (length a) b) (take (length a) (take (length b) c))"
    by (rule list_all2_takeI)
  with l have "list_all2 same_entry (take (length a) b) (take (length a) c)"
    by (simp add: min_absorb1)
  with ab have "list_all2 same_entry a (take (length a) c)"
    by (rule list_all2_same_entry_trans)
  with l show ?thesis by (simp add: ref_extends_def)
qed

lemma walk_refs_same:
  "list_all2 same_entry rl (fst (walk_refs k off rl i found))"
proof (induction k off rl i found rule: walk_refs.induct)
  case (1 k off rl i found)
  show ?case
  proof (cases "i < length rl \<and> ref_objidx (rl ! (length rl - i - 1)) = k")
    case True
    let ?j = "length rl - i - 1"
    let ?rl = "rl[?j := (rl ! ?j)\<lparr>offsets := offsets (rl ! ?j) @ [off]\<rparr>]"
    have a: "list_all2 same_entry rl ?rl"
      by (auto simp: list_all2_conv_all_nth nth_list_update same_entry_def)
    have b: "list_all2 same_entry ?rl (fst (walk_refs k off ?rl (Suc i) True))"
      by (rule 1 [OF _ refl]) (use True in auto)
    have c: "walk_refs k off rl i found = walk_refs k off ?rl (Suc i) True"
      using True by (intro walk_refs_step) auto
    from a b have "list_all2 same_entry rl (fst (walk_refs k off ?rl (Suc i) True))"
      by (rule list_all2_same_entry_trans)
    then show ?thesis unfolding c .
  next
    case False
    show ?thesis unfolding walk_refs_stop [OF False] by (simp add: list_all2_refl)
  qed
qed

lemma walk_refs_extends:
  "walk_refs k off rl i found = (rl', f) \<Longrightarrow> ref_extends rl rl'"
  using walk_refs_same [of rl k off i found]
  by (frule_tac list_all2_lengthD) (simp add: ref_extends_def)

lemma refs_kept_refl [simp]: "refs_kept a a"
  by (simp add: refs_kept_def)

lemma refs_kept_same: "refs b = refs a \<Longrightarrow> refs_kept a b"
  by (simp add: refs_kept_def)

lemma refs_kept_trans: "refs_kept a b \<Longrightarrow> refs_kept b c \<Longrightarrow> refs_kept a c"
  unfolding refs_kept_def by (meson ref_extends_trans)

lemma admit_row_refs_kept: "refs_kept s (snd (ctl_val (admit_row G secidx val sname (dl, s))))"
  by (auto simp: refs_kept_def admit_row_def Let_def ref_extends_def list_all2_refl)

lemma readRelocations_row_refs_kept: "refs_kept s (ctl_val (readRelocations_row G line s))"
  by (auto simp: refs_kept_def readRelocations_row_def Let_def
           split: option.splits prod.splits dest: walk_refs_extends)

lemma pass3_files_refs_kept: "refs_kept s (snd (pass3_files E G k files s))"
  by (rule pass3_files_rel)
     (auto intro: refs_kept_trans refs_kept_same admit_row_refs_kept
                  readRelocations_row_refs_kept)

lemma admit_row_ordered:
  "refs_ordered (objidx s) s \<Longrightarrow>
     refs_ordered (objidx s) (snd (ctl_val (admit_row G secidx val sname (dl, s))))"
  by (auto simp: refs_ordered_def admit_row_def Let_def sorted_append split: option.splits)

lemma readRelocations_row_ordered:
  assumes "refs_ordered (objidx s) s"
  shows "refs_ordered (objidx s) (ctl_val (readRelocations_row G line s))"
  using assms
  by (auto simp: refs_ordered_def readRelocations_row_def Let_def
           split: option.splits prod.splits dest!: walk_refs_ordered)

lemma pass3_ordered:
  "refs_ordered (objidx s) s \<Longrightarrow>
     refs_ordered (objidx s) (snd (pass3 E G infile s)) \<and> objidx (snd (pass3 E G infile s)) = objidx s"
proof -
  define R where "R = (\<lambda>(a :: state) (b :: state).
    objidx b = objidx a \<and> (refs_ordered (objidx a) a \<longrightarrow> refs_ordered (objidx a) b))"
  have same: "R a b" if "refs b = refs a" "objidx b = objidx a" for a b
    using that by (simp add: R_def refs_ordered_def)
  have "R s (snd (pass3 E G infile s))"
  proof (rule pass3_rel)
    show "R s s" for s by (simp add: R_def)
    show "R a b \<Longrightarrow> R b c \<Longrightarrow> R a c" for a b c by (simp add: R_def)
    show "R s (ctl_val (readSections_row line s))" for line s
      by (rule same) simp_all
    show "R s (snd (ctl_val (admit_row G secidx val sname (dl, s))))" for secidx val sname dl s
      by (simp add: R_def admit_row_ordered)
    show "R s (sameobj_step dl k s)" for dl k s
      by (rule same) simp_all
    show "R s (ctl_val (readRelocations_row G line s))" for line s
      by (simp add: R_def readRelocations_row_ordered)
    show "R s (s\<lparr>paths := p\<rparr>)" for s p
      by (rule same) simp_all
  qed
  then show "refs_ordered (objidx s) s \<Longrightarrow>
     refs_ordered (objidx s) (snd (pass3 E G infile s)) \<and> objidx (snd (pass3 E G infile s)) = objidx s"
    by (simp add: R_def)
qed

lemma pass3_files_ordered:
  "refs_ordered k s \<Longrightarrow> \<exists>k'. refs_ordered k' (snd (pass3_files E G k files s))"
proof (induction files arbitrary: k s)
  case Nil
  then show ?case by auto
next
  case (Cons f files)
  obtain e s1 where r: "pass3 E G f (s\<lparr>objidx := k\<rparr>) = (e, s1)" by fastforce
  have "refs_ordered (objidx (s\<lparr>objidx := k\<rparr>)) (s\<lparr>objidx := k\<rparr>)"
    using Cons.prems by (simp add: refs_ordered_def)
  from pass3_ordered [OF this, of E G f] r have o: "refs_ordered k s1" by simp
  show ?case
  proof (cases e)
    case None
    from o have "refs_ordered (k + 1) s1" by (fastforce simp: refs_ordered_def)
    from Cons.IH [OF this] r None show ?thesis by simp
  next
    case (Some err)
    with o r show ?thesis by auto
  qed
qed

lemma pass1_files_refs: "refs (snd (pass1_files E G k files s)) = refs s"
proof -
  define R where "R = (\<lambda>(a :: state) (b :: state). refs b = refs a)"
  have "R s (snd (pass1_files E G k files s))"
    by (rule pass1_files_rel) (auto simp: R_def)
  then show ?thesis by (simp add: R_def)
qed

lemma passes_ordered: "\<exists>k. refs_ordered k (snd (passes E G infiles))"
proof -
  obtain e s1 where r: "pass1_files E G 0 infiles (newState infiles) = (e, s1)" by fastforce
  have e: "refs s1 = Map.empty"
    using pass1_files_refs [of E G 0 infiles "newState infiles"] r by (simp add: newState_def)
  show ?thesis
  proof (cases e)
    case None
    have "refs_ordered 0 (pass2 s1)" using e by (simp add: refs_ordered_def pass2_def Let_def)
    from pass3_files_ordered [OF this] r None show ?thesis by (simp add: passes_def)
  next
    case (Some err)
    with e r show ?thesis by (auto simp: passes_def refs_ordered_def)
  qed
qed

text \<open>Claim C8: at the end of \<open>main\<close>, also when it ends with an error, the indices of the
  owning objects along the list of references of every name do not decrease; and every
  step of pass 3 keeps the entries a list holds, in their places, with the offsets they
  have as the first of those they get: the lists are only appended to.\<close>

theorem reference_lists_ordered:
  "(main E inputsflag allsyms watchsymsflag = (e, s) \<and> refs s n = Some rl
      \<longrightarrow> sorted (map ref_objidx rl))
   \<and> (refs s0 n = Some rl0
      \<longrightarrow> (\<exists>rl'. refs (snd (pass3_files E G k files s0)) n = Some rl' \<and> ref_extends rl0 rl'))"
proof -
  have "\<exists>k. refs_ordered k (snd (main E inputsflag allsyms watchsymsflag))"
    using passes_ordered by (auto simp: main_def refs_ordered_def newState_def)
  moreover have "refs_kept s0 (snd (pass3_files E G k files s0))"
    by (rule pass3_files_refs_kept)
  ultimately show ?thesis by (auto simp: refs_ordered_def refs_kept_def)
qed

theorem reference_lists_ordered_witness:
  "refs (snd (main env_ab ''a.o,b.o'' False [])) ''foo'' =
     Some [\<lparr>ref_objidx = 0, ref_secidx = 0, offsets = [7], ref_def = False\<rparr>,
           \<lparr>ref_objidx = 1, ref_secidx = 1, offsets = [], ref_def = True\<rparr>]
   \<and> sorted (map ref_objidx
         [\<lparr>ref_objidx = 0, ref_secidx = 0, offsets = [7], ref_def = False\<rparr>,
          \<lparr>ref_objidx = 1, ref_secidx = 1, offsets = [], ref_def = True\<rparr>])
   \<and> refs state_a_symtab ''foo'' =
       Some [\<lparr>ref_objidx = 0, ref_secidx = 0, offsets = [], ref_def = False\<rparr>]
   \<and> (\<exists>rl'. refs (snd (pass3_files env_ab (mkGlobals False []) 1 [''b.o''] state_a_symtab))
                ''foo'' = Some rl'
            \<and> ref_extends [\<lparr>ref_objidx = 0, ref_secidx = 0, offsets = [], ref_def = False\<rparr>] rl')"
proof -
  let ?m = "main env_ab ''a.o,b.o'' False []"
  let ?rl = "[\<lparr>ref_objidx = 0, ref_secidx = 0, offsets = [7], ref_def = False\<rparr>,
              \<lparr>ref_objidx = 1, ref_secidx = 1, offsets = [], ref_def = True\<rparr>]"
  let ?first = "[\<lparr>ref_objidx = 0, ref_secidx = 0, offsets = [], ref_def = False\<rparr>]"
  have m: "?m = (fst ?m, snd ?m)" by simp
  have p: "?m = passes env_ab (mkGlobals False []) [''a.o'', ''b.o'']"
    by (simp add: main_def)
  have r: "refs (snd ?m) ''foo'' = Some ?rl"
    unfolding p run_ab by simp
  have r0: "refs state_a_symtab ''foo'' = Some ?first"
    unfolding state_a_symtab_eval by simp
  note t = reference_lists_ordered [of env_ab "''a.o,b.o''" False "[]" "fst ?m" "snd ?m"
      "''foo''" ?rl state_a_symtab ?first "mkGlobals False []" 1 "[''b.o'']"]
  from t m r have a: "sorted (map ref_objidx ?rl)" by blast
  from t r0 have b: "\<exists>rl'. refs (snd (pass3_files env_ab (mkGlobals False []) 1 [''b.o'']
      state_a_symtab)) ''foo'' = Some rl' \<and> ref_extends ?first rl'" by blast
  from r a r0 b show ?thesis by (intro conjI)
qed

section \<open>The co-location flag\<close>

lemma sameobj_other_flag:
  "(m OR defbase) AND dsameobj = m AND dsameobj"
  "(m OR refbase) AND dsameobj = m AND dsameobj"
  "(m OR defimp) AND dsameobj = m AND dsameobj"
  "(m OR refimp) AND dsameobj = m AND dsameobj"
  by (simp_all add: bit.conj_disj_distrib2 defbase_def refbase_def defimp_def refimp_def
        dsameobj_def)

lemma sameobj_this_flag: "(m OR dsameobj) AND dsameobj \<noteq> 0"
  by (simp add: bit.conj_disj_distrib2 dsameobj_def)

lemma has_sameobj_maskAdd [simp]:
  "has_sameobj (maskAddDef n s) x = has_sameobj s x"
  "has_sameobj (maskAddRef n s) x = has_sameobj s x"
  by (simp_all add: has_sameobj_def maskAddDef_def maskAddRef_def Let_def get_mask_def
        sameobj_other_flag)

lemma has_sameobj_update [simp]:
  "has_sameobj (s\<lparr>defs := d\<rparr>) x = has_sameobj s x"
  "has_sameobj (s\<lparr>refs := r\<rparr>) x = has_sameobj s x"
  by (simp_all add: has_sameobj_def)

lemma HasPrefix_imppref:
  "HasPrefix k imppref \<and> drop (length imppref) k = x \<longleftrightarrow> k = imppref @ x"
  unfolding HasPrefix_def by (metis append_eq_conv_conj)

lemma has_sameobj_step:
  "has_sameobj (sameobj_step dl k t) x \<longleftrightarrow> has_sameobj t x \<or> (k = imppref @ x \<and> x \<in> set dl)"
proof (cases "HasPrefix k imppref \<and> drop (length imppref) k \<in> set dl")
  case False
  then show ?thesis
    using HasPrefix_imppref [of k x] by (auto simp: sameobj_step_def Let_def)
next
  case True
  then have s: "sameobj_step dl k t
    = t\<lparr>defref := (defref t)(drop (length imppref) k \<mapsto>
          get_mask (defref t) (drop (length imppref) k) OR dsameobj)\<rparr>"
    by (simp add: sameobj_step_def Let_def)
  show ?thesis
  proof (cases "drop (length imppref) k = x")
    case True
    with \<open>HasPrefix k imppref \<and> drop (length imppref) k \<in> set dl\<close>
    have "k = imppref @ x" "x \<in> set dl" using HasPrefix_imppref [of k x] by auto
    moreover have "has_sameobj (sameobj_step dl k t) x"
      unfolding s using True sameobj_this_flag [of 0]
      by (simp add: has_sameobj_def get_mask_def)
    ultimately show ?thesis by simp
  next
    case False
    then have "k \<noteq> imppref @ x" using HasPrefix_imppref [of k x] by auto
    moreover have "has_sameobj (sameobj_step dl k t) x = has_sameobj t x"
      unfolding s using False by (simp add: has_sameobj_def get_mask_def)
    ultimately show ?thesis by simp
  qed
qed

lemma fold_sameobj_defs [simp]: "defs (fold (sameobj_step dl) ks t) = defs t"
  by (induction ks arbitrary: t) simp_all

lemma has_sameobj_fold:
  "has_sameobj (fold (sameobj_step dl) ks t) x
     \<longleftrightarrow> has_sameobj t x \<or> (imppref @ x \<in> set ks \<and> x \<in> set dl)"
  by (induction ks arbitrary: t) (auto simp: has_sameobj_step)

lemma admit_row_symtab_inv:
  assumes "symtab_inv s (dl, t)"
  shows "symtab_inv s (ctl_val (admit_row G secidx val sname (dl, t)))"
proof (cases "isInterestingSym G t sname \<and> secidx \<noteq> 0 \<and> defs t sname = None")
  case False
  then have "fst (ctl_val (admit_row G secidx val sname (dl, t))) = dl"
    "defs (snd (ctl_val (admit_row G secidx val sname (dl, t)))) = defs t"
    "objidx (snd (ctl_val (admit_row G secidx val sname (dl, t)))) = objidx t"
    "\<And>x. has_sameobj (snd (ctl_val (admit_row G secidx val sname (dl, t)))) x = has_sameobj t x"
    by (auto simp: admit_row_def Let_def)
  with assms show ?thesis
    by (cases "ctl_val (admit_row G secidx val sname (dl, t))")
       (simp add: symtab_inv_def newly_defined_def)
next
  case True
  let ?di = "\<lparr>def_objidx = objidx t, def_secidx = secidx, def_value = val\<rparr>"
  from True have
    a: "fst (ctl_val (admit_row G secidx val sname (dl, t))) = insert_key sname dl"
    and b: "defs (snd (ctl_val (admit_row G secidx val sname (dl, t)))) = (defs t)(sname \<mapsto> ?di)"
    and c: "objidx (snd (ctl_val (admit_row G secidx val sname (dl, t)))) = objidx t"
    and d: "\<And>x. has_sameobj (snd (ctl_val (admit_row G secidx val sname (dl, t)))) x
              = has_sameobj t x"
    by (auto simp: admit_row_def Let_def)
  from assms True have n: "defs s sname = None"
    by (auto simp: symtab_inv_def)
  from assms n show ?thesis
    by (cases "ctl_val (admit_row G secidx val sname (dl, t))")
       (use a b c d in \<open>auto simp: symtab_inv_def newly_defined_def insert_key_def\<close>)
qed

lemma readSymtab_row_symtab_inv:
  "symtab_inv s a \<Longrightarrow> symtab_inv s (ctl_val (readSymtab_row G line a))"
  by (cases a) (auto simp: readSymtab_row_def Let_def admit_row_symtab_inv split: option.splits)

lemma symtab_inv_start: "symtab_inv s ([], s)"
  by (auto simp: symtab_inv_def newly_defined_def)

lemma symtab_loop_inv:
  "symtab_inv s (snd (snd (scan_loop (readSymtab_row G) ls ([], s))))"
proof -
  define R where
    "R = (\<lambda>(a :: string list \<times> state) (b :: string list \<times> state). symtab_inv s a \<longrightarrow> symtab_inv s b)"
  have "R ([], s) (snd (snd (scan_loop (readSymtab_row G) ls ([], s))))"
    by (rule scan_loop_rel) (auto simp: R_def readSymtab_row_symtab_inv)
  then show ?thesis by (simp add: R_def symtab_inv_start)
qed

lemma readSymtab_sameobj:
  assumes "readSymtab G ls s = (None, rest, s')"
  shows "has_sameobj s' x
     \<longleftrightarrow> has_sameobj s x \<or> (newly_defined s s' x \<and> newly_defined s s' (imppref @ x))"
proof -
  obtain e r dl s1 where l: "scan_loop (readSymtab_row G) ls ([], s) = (e, r, dl, s1)"
    using prod_cases4 by blast
  from assms l have e: "e = None" and s': "s' = fold (sameobj_step dl) dl s1"
    by (cases e; simp add: readSymtab_def)+
  from symtab_loop_inv [of s G ls] l have i: "symtab_inv s (dl, s1)" by simp
  have n: "newly_defined s s' n \<longleftrightarrow> n \<in> set dl" for n
    using i by (simp add: symtab_inv_def s' newly_defined_def)
  from i have "has_sameobj s1 x = has_sameobj s x" by (simp add: symtab_inv_def)
  then show ?thesis unfolding n unfolding s' has_sameobj_fold by blast
qed

lemma readSymtab_sameobj_sound:
  assumes "sameobj_sound s"
  shows "sameobj_sound (snd (snd (readSymtab G ls s)))"
proof -
  obtain e r dl s1 where l: "scan_loop (readSymtab_row G) ls ([], s) = (e, r, dl, s1)"
    using prod_cases4 by blast
  from symtab_loop_inv [of s G ls] l have i: "symtab_inv s (dl, s1)" by simp
  have old: "\<exists>d1 d2. defs s1 x = Some d1 \<and> defs s1 (imppref @ x) = Some d2
                  \<and> def_objidx d1 = def_objidx d2" if "has_sameobj s x" for x
  proof -
    from assms that obtain d1 d2 where "defs s x = Some d1" "defs s (imppref @ x) = Some d2"
      "def_objidx d1 = def_objidx d2" unfolding sameobj_sound_def by blast
    moreover from i have "\<And>n. defs s n \<noteq> None \<Longrightarrow> defs s1 n = defs s n"
      by (simp add: symtab_inv_def)
    ultimately show ?thesis by simp
  qed
  have new: "\<exists>d1 d2. defs s1 x = Some d1 \<and> defs s1 (imppref @ x) = Some d2
                  \<and> def_objidx d1 = def_objidx d2" if "x \<in> set dl" "imppref @ x \<in> set dl" for x
  proof -
    from i have "\<And>n. n \<in> set dl \<Longrightarrow> \<exists>d. defs s1 n = Some d \<and> def_objidx d = objidx s"
      by (simp add: symtab_inv_def)
    from this [OF that(1)] this [OF that(2)] show ?thesis by auto
  qed
  from i have same: "has_sameobj s1 x = has_sameobj s x" for x by (simp add: symtab_inv_def)
  have 1: "sameobj_sound s1"
    unfolding sameobj_sound_def using old same by blast
  have 2: "sameobj_sound (fold (sameobj_step dl) dl s1)"
    unfolding sameobj_sound_def has_sameobj_fold using old new same by auto
  from 1 2 l show ?thesis by (cases e) (simp_all add: readSymtab_def)
qed

lemma sameobj_sound_cong:
  "defs t = defs s \<Longrightarrow> defref t = defref s \<Longrightarrow> sameobj_sound s \<Longrightarrow> sameobj_sound t"
  by (simp add: sameobj_sound_def has_sameobj_def)

lemma pass3_files_sameobj_sound:
  "sameobj_sound s \<Longrightarrow> sameobj_sound (snd (pass3_files E G k files s))"
proof -
  define R where "R = (\<lambda>(a :: state) (b :: state). sameobj_sound a \<longrightarrow> sameobj_sound b)"
  have "R s (snd (pass3_files E G k files s))"
  proof (rule pass3_files_rel_symtab)
    show "R s (snd (snd (readSymtab G ls s)))" for ls s
      by (simp add: R_def readSymtab_sameobj_sound)
  qed (auto simp: R_def intro: sameobj_sound_cong)
  then show "sameobj_sound s \<Longrightarrow> sameobj_sound (snd (pass3_files E G k files s))"
    by (simp add: R_def)
qed

lemma pass1_files_sameobj_sound:
  "sameobj_sound s \<Longrightarrow> sameobj_sound (snd (pass1_files E G k files s))"
proof -
  define R where "R = (\<lambda>(a :: state) (b :: state). sameobj_sound a \<longrightarrow> sameobj_sound b)"
  have "R s (snd (pass1_files E G k files s))"
    by (rule pass1_files_rel) (auto simp: R_def intro: sameobj_sound_cong)
  then show "sameobj_sound s \<Longrightarrow> sameobj_sound (snd (pass1_files E G k files s))"
    by (simp add: R_def)
qed

lemma newState_sameobj_sound: "sameobj_sound (newState os)"
  by (simp add: sameobj_sound_def has_sameobj_def newState_def get_mask_def)

lemma passes_sameobj_sound: "sameobj_sound (snd (passes E G infiles))"
proof -
  obtain e s1 where p: "pass1_files E G 0 infiles (newState infiles) = (e, s1)" by fastforce
  have 1: "sameobj_sound s1"
    using pass1_files_sameobj_sound [OF newState_sameobj_sound, of E G 0 infiles infiles] p
    by simp
  then have "sameobj_sound (pass2 s1)"
    by (rule sameobj_sound_cong [rotated 2]) (simp_all add: pass2_def Let_def)
  then have "sameobj_sound (snd (pass3_files E G 0 infiles (pass2 s1)))"
    by (rule pass3_files_sameobj_sound)
  with 1 p show ?thesis by (cases e) (simp_all add: passes_def Let_def)
qed

lemma main_sameobj_sound: "sameobj_sound (snd (main E inputsflag allsyms watchsymsflag))"
  by (simp add: main_def passes_sameobj_sound newState_sameobj_sound)

text \<open>Claim C6: the co-location flag of a base name \<open>x\<close> is set after the block of a symbol
  table exactly when it was set before the block or the block itself defines both \<open>x\<close> and
  its import form (both enter the table of definitions in the block); and at the end of
  \<open>main\<close> a flagged base name and its import form are both defined, in the same object.\<close>

theorem sameobj_flag_iff:
  "(readSymtab G ls s = (None, rest, s') \<longrightarrow>
      (has_sameobj s' x
         \<longleftrightarrow> has_sameobj s x \<or> (newly_defined s s' x \<and> newly_defined s s' (imppref @ x))))
   \<and> (has_sameobj (snd (main E inputsflag allsyms watchsymsflag)) x \<longrightarrow>
        (\<exists>d1 d2. defs (snd (main E inputsflag allsyms watchsymsflag)) x = Some d1
           \<and> defs (snd (main E inputsflag allsyms watchsymsflag)) (imppref @ x) = Some d2
           \<and> def_objidx d1 = def_objidx d2))"
  using readSymtab_sameobj [of G ls s rest s' x]
    main_sameobj_sound [of E inputsflag allsyms watchsymsflag]
  unfolding sameobj_sound_def by blast

theorem sameobj_flag_iff_witness:
  "fst (readSymtab (mkGlobals False []) symtab_b (state_a_symtab\<lparr>objidx := 1\<rparr>)) = None
   \<and> \<not> has_sameobj (state_a_symtab\<lparr>objidx := 1\<rparr>) ''bar''
   \<and> has_sameobj
       (snd (snd (readSymtab (mkGlobals False []) symtab_b (state_a_symtab\<lparr>objidx := 1\<rparr>))))
       ''bar''
   \<and> newly_defined (state_a_symtab\<lparr>objidx := 1\<rparr>)
       (snd (snd (readSymtab (mkGlobals False []) symtab_b (state_a_symtab\<lparr>objidx := 1\<rparr>))))
       ''bar''
   \<and> newly_defined (state_a_symtab\<lparr>objidx := 1\<rparr>)
       (snd (snd (readSymtab (mkGlobals False []) symtab_b (state_a_symtab\<lparr>objidx := 1\<rparr>))))
       (imppref @ ''bar'')
   \<and> \<not> has_sameobj
       (snd (snd (readSymtab (mkGlobals False []) symtab_b (state_a_symtab\<lparr>objidx := 1\<rparr>))))
       ''foo''
   \<and> \<not> newly_defined (state_a_symtab\<lparr>objidx := 1\<rparr>)
       (snd (snd (readSymtab (mkGlobals False []) symtab_b (state_a_symtab\<lparr>objidx := 1\<rparr>))))
       (imppref @ ''foo'')
   \<and> has_sameobj (snd (main env_ab ''a.o,b.o'' False [])) ''bar''
   \<and> (\<exists>d1 d2. defs (snd (main env_ab ''a.o,b.o'' False [])) ''bar'' = Some d1
         \<and> defs (snd (main env_ab ''a.o,b.o'' False [])) (imppref @ ''bar'') = Some d2
         \<and> def_objidx d1 = def_objidx d2)"
proof -
  let ?G = "mkGlobals False []"
  let ?s = "state_a_symtab\<lparr>objidx := 1\<rparr>"
  let ?r = "readSymtab ?G symtab_b ?s"
  let ?m = "main env_ab ''a.o,b.o'' False []"
  have e: "fst ?r = None"
    unfolding state_a_symtab_eval by (simp add: run_simps)
  then have r: "?r = (None, fst (snd ?r), snd (snd ?r))"
    by (metis prod.collapse)
  have b0: "\<not> has_sameobj ?s ''bar''"
    unfolding state_a_symtab_eval by (simp add: has_sameobj_def get_mask_def)
  have f0: "\<not> has_sameobj ?s ''foo''"
    unfolding state_a_symtab_eval by (simp add: has_sameobj_def get_mask_def dsameobj_def)
  have d1: "newly_defined ?s (snd (snd ?r)) ''bar''"
    unfolding state_a_symtab_eval by (simp add: newly_defined_def run_simps)
  have d2: "newly_defined ?s (snd (snd ?r)) (imppref @ ''bar'')"
    unfolding state_a_symtab_eval by (simp add: newly_defined_def run_simps)
  have d3: "\<not> newly_defined ?s (snd (snd ?r)) (imppref @ ''foo'')"
    unfolding state_a_symtab_eval by (simp add: newly_defined_def run_simps)
  have p: "?m = passes env_ab ?G [''a.o'', ''b.o'']"
    by (simp add: main_def)
  have bm: "has_sameobj (snd ?m) ''bar''"
    unfolding p run_ab by (simp add: has_sameobj_def get_mask_def dsameobj_def)
  note t = sameobj_flag_iff [of ?G symtab_b ?s "fst (snd ?r)" "snd (snd ?r)" _ env_ab
      "''a.o,b.o''" False "[]"]
  from t [of "''bar''"] r b0 d1 d2 have 1: "has_sameobj (snd (snd ?r)) ''bar''" by blast
  from t [of "''foo''"] r f0 d3 have 2: "\<not> has_sameobj (snd (snd ?r)) ''foo''" by blast
  from t [of "''bar''"] bm have 3: "\<exists>d1 d2. defs (snd ?m) ''bar'' = Some d1
         \<and> defs (snd ?m) (imppref @ ''bar'') = Some d2 \<and> def_objidx d1 = def_objidx d2"
    by blast
  from e b0 1 d1 d2 2 d3 bm 3 show ?thesis by (intro conjI)
qed

section \<open>The flags do not depend on the order of the objects\<close>

lemma mask_update_commute:
  "(D(x \<mapsto> get_mask D x OR a))(y \<mapsto> get_mask (D(x \<mapsto> get_mask D x OR a)) y OR b)
   = (D(y \<mapsto> get_mask D y OR b))(x \<mapsto> get_mask (D(y \<mapsto> get_mask D y OR b)) x OR a)"
  by (rule ext) (simp add: get_mask_def ac_simps)

lemma defref_update_commute:
  "s\<lparr>defref := (defref s)(x \<mapsto> get_mask (defref s) x OR a)\<rparr>
    \<lparr>defref := (defref (s\<lparr>defref := (defref s)(x \<mapsto> get_mask (defref s) x OR a)\<rparr>))
       (y \<mapsto> get_mask (defref (s\<lparr>defref := (defref s)(x \<mapsto> get_mask (defref s) x OR a)\<rparr>)) y
              OR b)\<rparr>
   = s\<lparr>defref := (defref s)(y \<mapsto> get_mask (defref s) y OR b)\<rparr>
      \<lparr>defref := (defref (s\<lparr>defref := (defref s)(y \<mapsto> get_mask (defref s) y OR b)\<rparr>))
         (x \<mapsto> get_mask (defref (s\<lparr>defref := (defref s)(y \<mapsto> get_mask (defref s) y OR b)\<rparr>)) x
                OR a)\<rparr>"
  using mask_update_commute [of "defref s" x a y b] by simp

lemma maskAdd_commute:
  "maskAddDef n (maskAddDef m s) = maskAddDef m (maskAddDef n s)"
  "maskAddRef n (maskAddRef m s) = maskAddRef m (maskAddRef n s)"
  "maskAddDef n (maskAddRef m s) = maskAddRef m (maskAddDef n s)"
  unfolding maskAddDef_def maskAddRef_def Let_def
  by (cases "HasPrefix n imppref"; cases "HasPrefix m imppref";
      simp only: if_True if_False; rule defref_update_commute)+

lemma pass1_defref: "defref (snd (pass1 E G infile s)) = defref s"
proof -
  define R where "R = (\<lambda>(a :: state) (b :: state). defref b = defref a)"
  have "R s (snd (pass1 E G infile s))"
    by (rule pass1_rel) (auto simp: R_def)
  then show ?thesis by (simp add: R_def)
qed

lemma passes_two:
  assumes "passes E G [a, b] = (None, s)"
  shows "\<exists>p1 p2 q1.
    pass1 E G a ((newState [a, b])\<lparr>objidx := 0\<rparr>) = (None, p1)
    \<and> pass1 E G b (p1\<lparr>objidx := 1\<rparr>) = (None, p2)
    \<and> pass3 E G a ((pass2 p2)\<lparr>objidx := 0\<rparr>) = (None, q1)
    \<and> pass3 E G b (q1\<lparr>objidx := 1\<rparr>) = (None, s)"
proof -
  obtain e1 p1 where 1: "pass1 E G a ((newState [a, b])\<lparr>objidx := 0\<rparr>) = (e1, p1)" by fastforce
  obtain e2 p2 where 2: "pass1 E G b (p1\<lparr>objidx := 1\<rparr>) = (e2, p2)" by fastforce
  obtain e3 q1 where 3: "pass3 E G a ((pass2 p2)\<lparr>objidx := 0\<rparr>) = (e3, q1)" by fastforce
  obtain e4 q2 where 4: "pass3 E G b (q1\<lparr>objidx := 1\<rparr>) = (e4, q2)" by fastforce
  from assms 1 have e1: "e1 = None" by (cases e1) (auto simp: passes_def Let_def)
  from assms 1 2 e1 have e2: "e2 = None" by (cases e2) (auto simp: passes_def Let_def)
  from assms 1 2 3 e1 e2 have e3: "e3 = None" by (cases e3) (auto simp: passes_def Let_def)
  from assms 1 2 3 4 e1 e2 e3 have e4: "e4 = None" "q2 = s"
    by (cases e4; auto simp: passes_def Let_def)+
  from 1 2 3 4 e1 e2 e3 e4 show ?thesis by blast
qed

lemma passes_defref_swap:
  assumes "passes E G [a, b] = (None, s1)" and "passes E G [b, a] = (None, s2)"
  shows "defref s1 = defref s2"
proof -
  from passes_two [OF assms(1)] obtain p1 p2 q1 where
    a1: "pass1 E G a ((newState [a, b])\<lparr>objidx := 0\<rparr>) = (None, p1)"
    and a2: "pass1 E G b (p1\<lparr>objidx := 1\<rparr>) = (None, p2)"
    and a3: "pass3 E G a ((pass2 p2)\<lparr>objidx := 0\<rparr>) = (None, q1)"
    and a4: "pass3 E G b (q1\<lparr>objidx := 1\<rparr>) = (None, s1)"
    by blast
  from passes_two [OF assms(2)] obtain p1' p2' q1' where
    b1: "pass1 E G b ((newState [b, a])\<lparr>objidx := 0\<rparr>) = (None, p1')"
    and b2: "pass1 E G a (p1'\<lparr>objidx := 1\<rparr>) = (None, p2')"
    and b3: "pass3 E G b ((pass2 p2')\<lparr>objidx := 0\<rparr>) = (None, q1')"
    and b4: "pass3 E G a (q1'\<lparr>objidx := 1\<rparr>) = (None, s2)"
    by blast
  text \<open>Pass 1 finds the same names in both orders.\<close>
  from pass1_par [OF a1 b2] obtain Na where
    na: "set (all_syms p1) = Na" "set (all_syms p2') = set (all_syms p1') \<union> Na"
    by (auto simp: newState_def)
  from pass1_par [OF a2 b1] obtain Nb where
    nb: "set (all_syms p2) = set (all_syms p1) \<union> Nb" "set (all_syms p1') = Nb"
    by (auto simp: newState_def)
  from na nb have "set (all_syms p2) = set (all_syms p2')" by auto
  then have all2: "set (all_syms (pass2 p2)) = set (all_syms (pass2 p2'))"
    by (simp add: pass2_set)
  text \<open>The mask table is empty when pass 3 starts.\<close>
  have "defref p1 = Map.empty" using pass1_defref [of E G a "(newState [a, b])\<lparr>objidx := 0\<rparr>"] a1
    by (simp add: newState_def)
  then have "defref p2 = Map.empty" using pass1_defref [of E G b "p1\<lparr>objidx := 1\<rparr>"] a2 by simp
  then have d2: "defref (pass2 p2) = Map.empty" by (simp add: pass2_def Let_def)
  have "defref p1' = Map.empty" using pass1_defref [of E G b "(newState [b, a])\<lparr>objidx := 0\<rparr>"] b1
    by (simp add: newState_def)
  then have "defref p2' = Map.empty" using pass1_defref [of E G a "p1'\<lparr>objidx := 1\<rparr>"] b2 by simp
  then have d2': "defref (pass2 p2') = Map.empty" by (simp add: pass2_def Let_def)
  have q1: "all_syms q1 = all_syms (pass2 p2)"
    using pass3_all_syms [of E G a "(pass2 p2)\<lparr>objidx := 0\<rparr>"] a3 by simp
  have q1': "all_syms q1' = all_syms (pass2 p2')"
    using pass3_all_syms [of E G b "(pass2 p2')\<lparr>objidx := 0\<rparr>"] b3 by simp
  text \<open>Each object adds the same flags in both runs.\<close>
  have "flags_alike Map.empty (defref q1') ((pass2 p2)\<lparr>objidx := 0\<rparr>) (q1'\<lparr>objidx := 1\<rparr>)"
    unfolding flags_alike_def using all2 q1' d2
    by (auto intro!: exI [of _ "\<lambda>x. 0"] simp: or_masks_none)
  from pass3_par [OF a3 b4 this] obtain fa where
    fa: "defref q1 = or_masks Map.empty fa" "defref s2 = or_masks (defref q1') fa"
    by (auto simp: flags_alike_def)
  have "flags_alike (defref q1) Map.empty (q1\<lparr>objidx := 1\<rparr>) ((pass2 p2')\<lparr>objidx := 0\<rparr>)"
    unfolding flags_alike_def using all2 q1 d2'
    by (auto intro!: exI [of _ "\<lambda>x. 0"] simp: or_masks_none)
  from pass3_par [OF a4 b3 this] obtain fb where
    fb: "defref s1 = or_masks (defref q1) fb" "defref q1' = or_masks Map.empty fb"
    by (auto simp: flags_alike_def)
  have "defref s1 = or_masks Map.empty (\<lambda>x. fa x OR fb x)"
    unfolding fb(1) fa(1) by (rule or_masks_twice)
  moreover have "defref s2 = or_masks Map.empty (\<lambda>x. fb x OR fa x)"
    unfolding fa(2) fb(2) by (rule or_masks_twice)
  ultimately show ?thesis by (simp add: ac_simps)
qed

text \<open>Claim C7: \<open>maskAddDef\<close> and \<open>maskAddRef\<close> add their flag with \<open>|\<close>, so two of them
  applied in either order give the same state; and when the three passes end without an
  error on two objects in each of the two orders, the two final mask tables are equal: every
  base name has the same flags.\<close>

theorem flags_order_independent:
  "maskAddDef n (maskAddDef m s) = maskAddDef m (maskAddDef n s)
   \<and> maskAddRef n (maskAddRef m s) = maskAddRef m (maskAddRef n s)
   \<and> maskAddDef n (maskAddRef m s) = maskAddRef m (maskAddDef n s)
   \<and> (passes E G [a, b] = (None, s1) \<and> passes E G [b, a] = (None, s2)
        \<longrightarrow> defref s1 = defref s2)"
  using maskAdd_commute [of n m s] passes_defref_swap [of E G a b s1 s2] by blast

theorem flags_order_independent_witness:
  "fst (passes env_ab (mkGlobals False []) [''a.o'', ''b.o'']) = None
   \<and> fst (passes env_ab (mkGlobals False []) [''b.o'', ''a.o'']) = None
   \<and> defref (snd (passes env_ab (mkGlobals False []) [''a.o'', ''b.o'']))
       = defref (snd (passes env_ab (mkGlobals False []) [''b.o'', ''a.o'']))
   \<and> get_mask (defref (snd (passes env_ab (mkGlobals False []) [''a.o'', ''b.o'']))) ''foo''
       = defbase OR refbase OR defimp
   \<and> get_mask (defref (snd (passes env_ab (mkGlobals False []) [''b.o'', ''a.o'']))) ''foo''
       = defbase OR refbase OR defimp
   \<and> maskAddDef ''foo'' (maskAddRef ''__imp_foo'' (newState []))
       = maskAddRef ''__imp_foo'' (maskAddDef ''foo'' (newState []))"
proof -
  let ?G = "mkGlobals False []"
  let ?ab = "passes env_ab ?G [''a.o'', ''b.o'']"
  let ?ba = "passes env_ab ?G [''b.o'', ''a.o'']"
  have e1: "fst ?ab = None" unfolding run_ab by simp
  have e2: "fst ?ba = None" unfolding run_ba by simp
  from e1 have ab: "?ab = (None, snd ?ab)" by (metis prod.collapse)
  from e2 have ba: "?ba = (None, snd ?ba)" by (metis prod.collapse)
  note t = flags_order_independent [of "''foo''" "''__imp_foo''" "newState []" env_ab ?G
      "''a.o''" "''b.o''" "snd ?ab" "snd ?ba"]
  from t ab ba have eq: "defref (snd ?ab) = defref (snd ?ba)" by blast
  have foo: "get_mask (defref (snd ?ab)) ''foo'' = defbase OR refbase OR defimp"
    unfolding run_ab by (simp add: get_mask_def defbase_def refbase_def defimp_def)
  from foo eq have foo': "get_mask (defref (snd ?ba)) ''foo'' = defbase OR refbase OR defimp"
    by simp
  from t have c: "maskAddDef ''foo'' (maskAddRef ''__imp_foo'' (newState []))
       = maskAddRef ''__imp_foo'' (maskAddDef ''foo'' (newState []))" by blast
  from e1 e2 eq foo foo' c show ?thesis by (intro conjI)
qed

end
